theory Spec2Isabelle
  imports Main "HOL-Library.Word" "HOL-Library.Multiset"
begin

unbundle bit_operations_syntax

section \<open>Data model\<close>

text \<open>
  Errors of the library are values.  The source throws \<open>std::invalid_argument\<close> with a
  message; one constructor stands for each message.  \<open>StdOutOfRange\<close> is the exception of
  \<open>std::vector::at\<close>; \<open>UndefinedBehaviour\<close> marks an access the C++ standard leaves
  undefined (an unchecked index out of range, a null pointer dereferenced).
\<close>

datatype error =
    ModificationAfterValidation
  | ForeignNodeHandle
  | OutputMapNotEmpty
  | OutputMapSize
  | OutputMapFull
  | SlotOutOfRange
  | SelfLoop
  | SlotAlreadyWired
  | EmptyInstruction
  | SizeTooSmall
  | NotSameGraph
  | NodeNotWired
  | InputHasDependents
  | OutputHasOutputs
  | OutputMissingTokens
  | InputOutputNotDistinct
  | OutputMapIncomplete
  | CycleDetected
  | UnreachableNodes
  | StdOutOfRange
  | UndefinedBehaviour

subsection \<open>token.hpp, function.hpp\<close>

text \<open>
  A token vector holds shared pointers to tokens; a null pointer is \<open>None\<close>.  A token
  carries a payload of the user's type, or (for a MERGE node) a whole token vector.
\<close>

datatype 'v token = TokenSlot 'v | TokenVector "'v token option list"

type_synonym 'v token_vector_t = "'v token option list"

datatype 'v func =
    FunctionImp nat nat "'v token list \<Rightarrow> 'v token list"
  | FunctionPlaceHolder

fun get_arity :: "'v func \<Rightarrow> nat" where
  "get_arity (FunctionImp a out c) = a"
| "get_arity FunctionPlaceHolder = 0"

fun get_output_size :: "'v func \<Rightarrow> nat" where
  "get_output_size (FunctionImp a out c) = out"
| "get_output_size FunctionPlaceHolder = 0"

text \<open>
  \<open>FunctionImp::execute\<close> reads \<open>input.at(k)\<close> for every \<open>k\<close> below the arity and
  dereferences each pointer, then stores the members of the callable's result tuple.  The
  place holder returns a null vector.
\<close>

fun Function_execute :: "'v func \<Rightarrow> 'v token_vector_t \<Rightarrow> error + 'v token_vector_t option" where
  "Function_execute (FunctionImp a out c) input =
     (if length input < a then Inl StdOutOfRange
      else if None \<in> set (take a input) then Inl UndefinedBehaviour
      else Inr (Some (map Some (c (map the (take a input))))))"
| "Function_execute FunctionPlaceHolder input = Inr None"

subsection \<open>graph.hpp: Bitmask\<close>

record bitmask =
  LAST_MASK :: "32 word"
  bm_n :: "32 word"
  bm_array_size :: nat
  bm_array :: "32 word list"

definition MASK :: "32 word" where
  "MASK = 0xFFFFFFFF"

text \<open>The constructor takes a \<open>uint32_t\<close>; callers pass a \<open>size_t\<close>, which is truncated.\<close>

definition Bitmask :: "nat \<Rightarrow> bitmask" where
  "Bitmask sz =
     (let n = sz mod 2 ^ 32;
          array_size = (n + 31) div 32
      in \<lparr> LAST_MASK = (if n mod 32 \<noteq> 0 then push_bit (n mod 32) 1 - 1 else 0xFFFFFFFF),
           bm_n = of_nat n,
           bm_array_size = array_size,
           bm_array = replicate array_size 0 \<rparr>)"

text \<open>
  \<open>Bitmask::set\<close>: \<open>None\<close> when the unchecked \<open>_array[base]\<close> is out of range,
  otherwise the returned flag and the mask after the call.
\<close>

definition Bitmask_set :: "bitmask \<Rightarrow> 32 word \<Rightarrow> (bool \<times> bitmask) option" where
  "Bitmask_set b x =
     (let base = unat x div 32;
          offset = unat x mod 32
      in if base \<ge> length (bm_array b) then None
         else if (bm_array b ! base) AND (push_bit offset 1) \<noteq> 0 then Some (False, b)
         else Some (True, b\<lparr>bm_array := (bm_array b)[base := (bm_array b ! base) OR (push_bit offset 1)]\<rparr>))"

text \<open>
  \<open>Bitmask::all_set\<close>: the loop runs over \<open>i < (int) _array_size - 2\<close>; the last word is
  read at the unsigned index \<open>_array_size - 1\<close>, out of range for an empty array.
\<close>

definition Bitmask_all_set :: "bitmask \<Rightarrow> bool option" where
  "Bitmask_all_set b =
     (if \<exists>i \<in> set [0 ..< nat (int (bm_array_size b) - 2)]. bm_array b ! i \<noteq> MASK then Some False
      else if bm_array_size b = 0 \<or> bm_array_size b - 1 \<ge> length (bm_array b) then None
      else Some (bm_array b ! (bm_array_size b - 1) = LAST_MASK b))"

definition Bitmask_all_zeros :: "bitmask \<Rightarrow> bool" where
  "Bitmask_all_zeros b = (\<forall>i \<in> set [0 ..< bm_array_size b]. bm_array b ! i = 0)"

subsection \<open>graph.hpp: Node\<close>

datatype node_type = STANDARD | SPLIT | MERGE

type_synonym token_map_t = "(nat \<times> nat) list"

type_synonym node_vector_t = "nat list"

record 'v node =
  n_type :: node_type
  node_id :: nat
  tokens_count :: "32 word"
  input_tokens :: "'v token_vector_t"
  successors :: node_vector_t
  dependents :: bitmask
  output_map :: token_map_t
  func :: "'v func"
  input_size :: nat
  output_size :: nat
  is_output :: bool
  is_complete :: bool
  processed :: "bool option"

text \<open>
  \<open>_tokens_count\<close> is a \<open>std::atomic_int\<close>: 32 bits, and every assignment to it narrows a
  \<open>size_t\<close>.  \<open>_processed\<close> is a \<open>std::atomic_flag\<close> that no constructor initialises: the
  field is \<open>None\<close> as long as the program has not written the flag, and \<open>Some b\<close> once it
  has.  What an unwritten flag reads as is not determined by the program (see
  \<open>flag_memory\<close> below).

  The three constructors of a template node.  No constructor sizes \<open>_input_tokens\<close>.
\<close>

definition Node_of_function :: "nat \<Rightarrow> 'v func \<Rightarrow> 'v node" where
  "Node_of_function nid f =
     \<lparr> n_type = STANDARD, node_id = nid, tokens_count = word_of_nat (get_arity f), input_tokens = [],
       successors = [], dependents = Bitmask (get_arity f), output_map = [], func = f,
       input_size = get_arity f, output_size = get_output_size f,
       is_output = False, is_complete = False, processed = None \<rparr>"

definition Node_of_node :: "nat \<Rightarrow> 'v node \<Rightarrow> 'v node" where
  "Node_of_node nid nd =
     \<lparr> n_type = n_type nd, node_id = nid, tokens_count = word_of_nat (input_size nd), input_tokens = [],
       successors = [], dependents = Bitmask (input_size nd), output_map = [], func = func nd,
       input_size = input_size nd, output_size = output_size nd,
       is_output = False, is_complete = False, processed = None \<rparr>"

definition Node_of_type :: "nat \<Rightarrow> node_type \<Rightarrow> nat \<Rightarrow> 'v node" where
  "Node_of_type nid ty sz =
     (let isz = (if ty = MERGE then sz else 1);
          osz = (if ty = MERGE then 1 else sz)
      in \<lparr> n_type = ty, node_id = nid, tokens_count = word_of_nat isz, input_tokens = [],
           successors = [], dependents = Bitmask isz, output_map = [], func = FunctionPlaceHolder,
           input_size = isz, output_size = osz,
           is_output = False, is_complete = False, processed = None \<rparr>)"

text \<open>
  The copy constructor makes the node of a run instance: fresh input slots and counter, the
  wiring shared, the flag \<open>_processed\<close> not written.  It does not assign \<open>_input_size\<close> and
  \<open>_is_complete\<close>, which no code reads on an instance; the model keeps the template's
  values there.
\<close>

definition Node_copy :: "'v node \<Rightarrow> 'v node" where
  "Node_copy nd =
     nd\<lparr> input_tokens := replicate (input_size nd) None,
         tokens_count := word_of_nat (input_size nd),
         processed := None \<rparr>"

text \<open>\<open>Node::execute\<close>; reading \<open>_input_tokens[0]\<close> of an empty vector is undefined.\<close>

definition Node_execute :: "'v node \<Rightarrow> error + 'v token_vector_t option" where
  "Node_execute nd =
     (case n_type nd of
        STANDARD \<Rightarrow> Function_execute (func nd) (input_tokens nd)
      | MERGE \<Rightarrow> Inr (Some [Some (TokenVector (input_tokens nd))])
      | SPLIT \<Rightarrow>
          (if output_size nd = 0 then Inr (Some [])
           else if input_tokens nd = [] then Inl UndefinedBehaviour
           else Inr (Some (replicate (output_size nd) (input_tokens nd ! 0)))))"

subsection \<open>graph.hpp: Graph\<close>

record 'v graph =
  nodes :: "'v node list"
  output_node :: int
  input_node :: int
  counter :: nat

definition Graph_new :: "'v graph" where
  "Graph_new = \<lparr> nodes = [], output_node = -1, input_node = -1, counter = 0 \<rparr>"

definition Graph_copy :: "'v graph \<Rightarrow> 'v graph" where
  "Graph_copy other = other\<lparr> nodes := map Node_copy (nodes other) \<rparr>"

definition Graph_emplace_back :: "'v graph \<Rightarrow> 'v func \<Rightarrow> 'v graph" where
  "Graph_emplace_back g f = g\<lparr> nodes := nodes g @ [Node_of_function (length (nodes g)) f] \<rparr>"

definition Graph_emplace_back_node :: "'v graph \<Rightarrow> 'v node \<Rightarrow> 'v graph" where
  "Graph_emplace_back_node g nd = g\<lparr> nodes := nodes g @ [Node_of_node (length (nodes g)) nd] \<rparr>"

definition Graph_merge_node :: "'v graph \<Rightarrow> nat \<Rightarrow> 'v graph" where
  "Graph_merge_node g sz = g\<lparr> nodes := nodes g @ [Node_of_type (length (nodes g)) MERGE sz] \<rparr>"

definition Graph_split_node :: "'v graph \<Rightarrow> nat \<Rightarrow> 'v graph" where
  "Graph_split_node g sz = g\<lparr> nodes := nodes g @ [Node_of_type (length (nodes g)) SPLIT sz] \<rparr>"


text \<open>
  \<open>Graph::check_node\<close> is recursive; the model bounds the depth of the recursion by a
  fuel argument and returns \<open>None\<close> when it is used up (\<open>check_graph_returns\<close> below shows
  that the fuel \<open>check_graph\<close> supplies is never used up).  The graph is not changed by the
  traversal except for \<open>_counter\<close>, which is threaded together with the two arrays: the
  state is \<open>(visited, stack, counter)\<close>, and it is returned on a throw as well, since the
  counter keeps what it has counted.  Indexing the raw arrays out of range is undefined.
\<close>

type_synonym dfs_state = "bool list \<times> bool list \<times> nat"

fun check_node :: "nat \<Rightarrow> 'v graph \<Rightarrow> nat \<Rightarrow> dfs_state \<Rightarrow> (error option \<times> dfs_state) option"
  and check_successors :: "nat \<Rightarrow> 'v graph \<Rightarrow> nat list \<Rightarrow> dfs_state \<Rightarrow> (error option \<times> dfs_state) option"
where
  "check_node 0 g i st = None"
| "check_node (Suc fuel) g i (visited, stack, c) =
     (if i \<ge> length visited \<or> i \<ge> length stack then Some (Some UndefinedBehaviour, (visited, stack, c))
      else if \<not> visited ! i then
        (let st1 = (visited[i := True], stack[i := True], c + 1) in
         if i \<ge> length (nodes g) then Some (Some StdOutOfRange, st1)
         else if int i \<noteq> output_node g \<and>
                 length (output_map (nodes g ! i)) \<noteq> output_size (nodes g ! i)
           then Some (Some OutputMapIncomplete, st1)
         else
           (case check_successors fuel g (successors (nodes g ! i)) st1 of
              None \<Rightarrow> None
            | Some (Some e, st2) \<Rightarrow> Some (Some e, st2)
            | Some (None, (visited2, stack2, c2)) \<Rightarrow> Some (None, (visited2, stack2[i := False], c2))))
      else Some (None, (visited, stack[i := False], c)))"
| "check_successors fuel g [] st = Some (None, st)"
| "check_successors fuel g (adj # rest) (visited, stack, c) =
     (if adj \<ge> length visited \<or> adj \<ge> length stack then Some (Some UndefinedBehaviour, (visited, stack, c))
      else if \<not> visited ! adj then
        (case check_node fuel g adj (visited, stack, c) of
           None \<Rightarrow> None
         | Some (Some e, st1) \<Rightarrow> Some (Some e, st1)
         | Some (None, st1) \<Rightarrow> check_successors fuel g rest st1)
      else if stack ! adj then Some (Some CycleDetected, (visited, stack, c))
      else check_successors fuel g rest (visited, stack, c))"

definition check_graph :: "'v graph \<Rightarrow> (error option \<times> 'v graph) option" where
  "check_graph g =
     (if input_node g = output_node g \<or> input_node g = -1 \<or> output_node g = -1
        then Some (Some InputOutputNotDistinct, g)
      else
        (let n = length (nodes g) in
         case check_node (Suc n) g (nat (input_node g)) (replicate n False, replicate n False, counter g) of
           None \<Rightarrow> None
         | Some (Some e, (visited, stack, c)) \<Rightarrow> Some (Some e, g\<lparr>counter := c\<rparr>)
         | Some (None, (visited, stack, c)) \<Rightarrow>
             if c \<noteq> n then Some (Some UnreachableNodes, g\<lparr>counter := c\<rparr>)
             else Some (None, g\<lparr>counter := c\<rparr>)))"

subsection \<open>instruction.hpp\<close>

text \<open>
  An instruction is a handle: a pointer to a node, the identity of the graph that owns the
  node, and two cursors.  The node pointer is the node's index in the graph named by
  \<open>ins_graph_id\<close>; \<open>None\<close> is the null pointer of a default-constructed handle.  The cursors
  are \<open>int\<close>s in the source, only ever incremented from 0.
\<close>

record instruction =
  ins_node :: "nat option"
  ins_graph_id :: nat
  last_token :: nat
  last_output :: nat

definition Instruction :: "nat \<Rightarrow> nat \<Rightarrow> instruction" where
  "Instruction k gid = \<lparr> ins_node = Some k, ins_graph_id = gid, last_token = 0, last_output = 0 \<rparr>"

subsection \<open>mdf.hpp\<close>

record 'v mdf =
  graph :: "'v graph"
  graph_id :: nat
  valid :: bool

text \<open>
  The graph identity is the address of the graph.  Handles may point into graphs of other
  \<open>Mdf\<close> objects; these are read through \<open>mem\<close>, the graphs at the other addresses, which
  no operation writes.
\<close>

type_synonym 'v memory = "nat \<Rightarrow> 'v graph option"

definition node_at :: "'v graph \<Rightarrow> nat \<Rightarrow> 'v node option" where
  "node_at g k = (if k < length (nodes g) then Some (nodes g ! k) else None)"

definition deref :: "'v memory \<Rightarrow> 'v mdf \<Rightarrow> instruction \<Rightarrow> 'v node option" where
  "deref mem m ins =
     (case ins_node ins of
        None \<Rightarrow> None
      | Some k \<Rightarrow>
          if ins_graph_id ins = graph_id m then node_at (graph m) k
          else (case mem (ins_graph_id ins) of None \<Rightarrow> None | Some g \<Rightarrow> node_at g k))"

definition Mdf :: "nat \<Rightarrow> 'v mdf" where
  "Mdf gid = \<lparr> graph = Graph_new, graph_id = gid, valid = False \<rparr>"

definition Mdf_emplace_back :: "'v mdf \<Rightarrow> 'v func \<Rightarrow> instruction \<times> 'v mdf" where
  "Mdf_emplace_back m f =
     (Instruction (length (nodes (graph m))) (graph_id m), m\<lparr>graph := Graph_emplace_back (graph m) f\<rparr>)"

definition Mdf_emplace_back_instruction ::
  "'v memory \<Rightarrow> 'v mdf \<Rightarrow> instruction \<Rightarrow> (error + instruction) \<times> 'v mdf" where
  "Mdf_emplace_back_instruction mem m ins =
     (if ins_node ins = None then (Inl EmptyInstruction, m)
      else case deref mem m ins of
        None \<Rightarrow> (Inl UndefinedBehaviour, m)
      | Some nd \<Rightarrow> (Inr (Instruction (length (nodes (graph m))) (graph_id m)),
                   m\<lparr>graph := Graph_emplace_back_node (graph m) nd\<rparr>))"

definition Mdf_merge_node :: "'v mdf \<Rightarrow> nat \<Rightarrow> (error + instruction) \<times> 'v mdf" where
  "Mdf_merge_node m isz =
     (if isz < 1 then (Inl SizeTooSmall, m)
      else (Inr (Instruction (length (nodes (graph m))) (graph_id m)),
            m\<lparr>graph := Graph_merge_node (graph m) isz\<rparr>))"

definition Mdf_split_node :: "'v mdf \<Rightarrow> nat \<Rightarrow> (error + instruction) \<times> 'v mdf" where
  "Mdf_split_node m osz =
     (if osz < 1 then (Inl SizeTooSmall, m)
      else (Inr (Instruction (length (nodes (graph m))) (graph_id m)),
            m\<lparr>graph := Graph_split_node (graph m) osz\<rparr>))"

definition add_successor :: "node_vector_t \<Rightarrow> nat \<Rightarrow> node_vector_t" where
  "add_successor node_vec nodeB = (if nodeB \<notin> set node_vec then node_vec @ [nodeB] else node_vec)"

definition add_dependent :: "bitmask \<Rightarrow> int \<Rightarrow> error + bitmask" where
  "add_dependent bmask nodeB =
     (case Bitmask_set bmask (word_of_int nodeB) of
        None \<Rightarrow> Inl UndefinedBehaviour
      | Some (False, b) \<Rightarrow> Inl SlotAlreadyWired
      | Some (True, b) \<Rightarrow> Inr b)"

definition Mdf_validate :: "'v mdf \<Rightarrow> (error option \<times> 'v mdf) option" where
  "Mdf_validate m =
     (if \<not> valid m then
        (case check_graph (graph m) of
           None \<Rightarrow> None
         | Some (Some e, g) \<Rightarrow> Some (Some e, m\<lparr>graph := g\<rparr>)
         | Some (None, g) \<Rightarrow> Some (None, m\<lparr>graph := g, valid := True\<rparr>))
      else Some (None, m))"

text \<open>
  A slot index is a \<open>size_t\<close> in the output map and is narrowed to \<open>int32_t\<close> before it is
  checked; the check compares it with a \<open>size_t\<close>, so it is widened again (64 bits).
\<close>

definition to_int32 :: "nat \<Rightarrow> int" where
  "to_int32 x = sint (word_of_nat x :: 32 word)"

definition to_size_t :: "int \<Rightarrow> nat" where
  "to_size_t x = unat (word_of_int x :: 64 word)"

definition update_node :: "'v graph \<Rightarrow> nat \<Rightarrow> ('v node \<Rightarrow> 'v node) \<Rightarrow> 'v graph" where
  "update_node g k f = g\<lparr>nodes := (nodes g)[k := f (nodes g ! k)]\<rparr>"

text \<open>
  The statements that \<open>set_output\<close> (in its loop) and \<open>add_output\<close> both run for one pair
  \<open>(next_ins, slot)\<close> and the node \<open>k\<close> of the handle: the range check, the self-loop check,
  then \<open>add_successor\<close> and \<open>add_dependent\<close>, in this order.
\<close>

definition connect :: "'v mdf \<Rightarrow> nat \<Rightarrow> nat \<times> nat \<Rightarrow> error option \<times> 'v mdf" where
  "connect m k token_info =
     (let next_ins = fst token_info in
      if next_ins \<ge> length (nodes (graph m)) then (Some StdOutOfRange, m)
      else
        let next_node = nodes (graph m) ! next_ins;
            token_id = to_int32 (snd token_info)
        in if to_size_t token_id \<ge> input_size next_node then (Some SlotOutOfRange, m)
           else if next_ins = node_id (nodes (graph m) ! k) then (Some SelfLoop, m)
           else
             let m1 = m\<lparr>graph := update_node (graph m) k
                         (\<lambda>nd. nd\<lparr>successors := add_successor (successors nd) next_ins\<rparr>)\<rparr>
             in case add_dependent (dependents (nodes (graph m1) ! next_ins)) token_id of
                  Inl e \<Rightarrow> (Some e, m1)
                | Inr b \<Rightarrow> (None, m1\<lparr>graph := update_node (graph m1) next_ins (\<lambda>nd. nd\<lparr>dependents := b\<rparr>)\<rparr>))"

fun set_output_loop :: "'v mdf \<Rightarrow> nat \<Rightarrow> token_map_t \<Rightarrow> error option \<times> 'v mdf" where
  "set_output_loop m k [] = (None, m)"
| "set_output_loop m k (token_info # rest) =
     (case connect m k token_info of
        (Some e, m1) \<Rightarrow> (Some e, m1)
      | (None, m1) \<Rightarrow> set_output_loop m1 k rest)"

definition Mdf_set_output :: "'v mdf \<Rightarrow> instruction \<Rightarrow> token_map_t \<Rightarrow> error option \<times> 'v mdf" where
  "Mdf_set_output m ins omap =
     (if valid m then (Some ModificationAfterValidation, m)
      else if graph_id m \<noteq> ins_graph_id ins then (Some ForeignNodeHandle, m)
      else case ins_node ins of
        None \<Rightarrow> (Some UndefinedBehaviour, m)
      | Some k \<Rightarrow>
          if k \<ge> length (nodes (graph m)) then (Some UndefinedBehaviour, m)
          else if length (output_map (nodes (graph m) ! k)) > 0 then (Some OutputMapNotEmpty, m)
          else if length omap \<noteq> output_size (nodes (graph m) ! k) then (Some OutputMapSize, m)
          else case set_output_loop m k omap of
                 (Some e, m1) \<Rightarrow> (Some e, m1)
               | (None, m1) \<Rightarrow> (None, m1\<lparr>graph := update_node (graph m1) k (\<lambda>nd. nd\<lparr>output_map := omap\<rparr>)\<rparr>))"

definition Mdf_add_output :: "'v mdf \<Rightarrow> instruction \<Rightarrow> nat \<times> nat \<Rightarrow> error option \<times> 'v mdf" where
  "Mdf_add_output m ins inst_coord =
     (if valid m then (Some ModificationAfterValidation, m)
      else if graph_id m \<noteq> ins_graph_id ins then (Some ForeignNodeHandle, m)
      else case ins_node ins of
        None \<Rightarrow> (Some UndefinedBehaviour, m)
      | Some k \<Rightarrow>
          if k \<ge> length (nodes (graph m)) then (Some UndefinedBehaviour, m)
          else if length (output_map (nodes (graph m) ! k)) \<ge> output_size (nodes (graph m) ! k)
            then (Some OutputMapFull, m)
          else case connect m k inst_coord of
                 (Some e, m1) \<Rightarrow> (Some e, m1)
               | (None, m1) \<Rightarrow>
                   (None, m1\<lparr>graph := update_node (graph m1) k
                                (\<lambda>nd. nd\<lparr>output_map := output_map nd @ [inst_coord]\<rparr>)\<rparr>))"


text \<open>
  \<open>send_to(instruction, other)\<close>.  The loop runs \<open>instruction.output_size()\<close> times, a
  bound its body does not change; each round reads \<open>other()\<close>, post-increments the cursor
  \<open>_last_output\<close> of the handle (before \<open>add_output\<close> is entered, so also when it throws)
  and calls \<open>add_output\<close>.  The handle is updated, so it is returned.
\<close>

fun send_to_loop ::
  "'v memory \<Rightarrow> nat \<Rightarrow> 'v mdf \<Rightarrow> instruction \<Rightarrow> instruction \<Rightarrow> error option \<times> 'v mdf \<times> instruction" where
  "send_to_loop mem 0 m ins other = (None, m, ins)"
| "send_to_loop mem (Suc n) m ins other =
     (case deref mem m other of
        None \<Rightarrow> (Some UndefinedBehaviour, m, ins)
      | Some ond \<Rightarrow>
          let inst_coord = (node_id ond, last_output ins);
              ins1 = ins\<lparr>last_output := last_output ins + 1\<rparr>
          in case Mdf_add_output m ins1 inst_coord of
               (Some e, m1) \<Rightarrow> (Some e, m1, ins1)
             | (None, m1) \<Rightarrow> send_to_loop mem n m1 ins1 other)"

definition Mdf_send_to ::
  "'v memory \<Rightarrow> 'v mdf \<Rightarrow> instruction \<Rightarrow> instruction \<Rightarrow> error option \<times> 'v mdf \<times> instruction" where
  "Mdf_send_to mem m ins other =
     (if ins_graph_id other \<noteq> ins_graph_id ins then (Some NotSameGraph, m, ins)
      else case deref mem m ins of
        None \<Rightarrow> (Some UndefinedBehaviour, m, ins)
      | Some nd \<Rightarrow> send_to_loop mem (output_size nd) m ins other)"

text \<open>
  The variadic \<open>send_to(instruction, head, other...)\<close> calls \<open>send_to(instruction, head)\<close>
  and then itself on the rest; it is instantiated with two consumers or more.
\<close>

fun Mdf_send_to_variadic ::
  "'v memory \<Rightarrow> 'v mdf \<Rightarrow> instruction \<Rightarrow> instruction list \<Rightarrow> error option \<times> 'v mdf \<times> instruction" where
  "Mdf_send_to_variadic mem m ins [] = (None, m, ins)"
| "Mdf_send_to_variadic mem m ins [other] = Mdf_send_to mem m ins other"
| "Mdf_send_to_variadic mem m ins (head # other) =
     (case Mdf_send_to mem m ins head of
        (Some e, m1, ins1) \<Rightarrow> (Some e, m1, ins1)
      | (None, m1, ins1) \<Rightarrow> Mdf_send_to_variadic mem m1 ins1 other)"

definition Mdf_mark_as_input :: "'v memory \<Rightarrow> 'v mdf \<Rightarrow> instruction \<Rightarrow> error option \<times> 'v mdf" where
  "Mdf_mark_as_input mem m ins =
     (if valid m then (Some ModificationAfterValidation, m)
      else case deref mem m ins of
        None \<Rightarrow> (Some UndefinedBehaviour, m)
      | Some nd \<Rightarrow>
          if length (output_map nd) \<noteq> output_size nd then (Some NodeNotWired, m)
          else if \<not> Bitmask_all_zeros (dependents nd) then (Some InputHasDependents, m)
          else if graph_id m \<noteq> ins_graph_id ins then (Some ForeignNodeHandle, m)
          else (None, m\<lparr>graph := (graph m)\<lparr>input_node := int (node_id nd)\<rparr>\<rparr>))"

definition Mdf_mark_as_output :: "'v memory \<Rightarrow> 'v mdf \<Rightarrow> instruction \<Rightarrow> error option \<times> 'v mdf" where
  "Mdf_mark_as_output mem m ins =
     (if valid m then (Some ModificationAfterValidation, m)
      else case deref mem m ins of
        None \<Rightarrow> (Some UndefinedBehaviour, m)
      | Some nd \<Rightarrow>
          if length (output_map nd) \<noteq> 0 then (Some OutputHasOutputs, m)
          else case Bitmask_all_set (dependents nd) of
            None \<Rightarrow> (Some UndefinedBehaviour, m)
          | Some False \<Rightarrow> (Some OutputMissingTokens, m)
          | Some True \<Rightarrow>
              if graph_id m \<noteq> ins_graph_id ins then (Some ForeignNodeHandle, m)
              else (None, m\<lparr>graph := update_node ((graph m)\<lparr>output_node := int (node_id nd)\<rparr>)
                                       (the (ins_node ins)) (\<lambda>nd. nd\<lparr>is_output := True\<rparr>)\<rparr>))"

text \<open>
  \<open>send_to(instruction, std::vector<Instruction>& other)\<close>.  The innermost loop calls
  \<open>add_output(instruction, {ins(), j})\<close> for every \<open>j\<close> below \<open>ins.input_size()\<close> and
  counts the calls in \<open>i\<close>; the middle loop runs over the vector; the outer loop repeats
  the pass while \<open>i < instruction.output_size()\<close>.  A pass that makes no call leaves \<open>i\<close>
  and the template as they were, so the outer loop then never ends: the result is \<open>None\<close>.
\<close>

fun send_to_inputs ::
  "'v mdf \<Rightarrow> instruction \<Rightarrow> nat \<Rightarrow> nat \<Rightarrow> nat \<Rightarrow> nat \<Rightarrow> error option \<times> 'v mdf \<times> nat" where
  "send_to_inputs m ins cid j 0 i = (None, m, i)"
| "send_to_inputs m ins cid j (Suc n) i =
     (case Mdf_add_output m ins (cid, j) of
        (Some e, m1) \<Rightarrow> (Some e, m1, i)
      | (None, m1) \<Rightarrow> send_to_inputs m1 ins cid (j + 1) n (i + 1))"

fun send_to_pass ::
  "'v memory \<Rightarrow> 'v mdf \<Rightarrow> instruction \<Rightarrow> instruction list \<Rightarrow> nat \<Rightarrow> error option \<times> 'v mdf \<times> nat" where
  "send_to_pass mem m ins [] i = (None, m, i)"
| "send_to_pass mem m ins (c # cs) i =
     (case deref mem m c of
        None \<Rightarrow> (Some UndefinedBehaviour, m, i)
      | Some cnd \<Rightarrow>
          (case send_to_inputs m ins (node_id cnd) 0 (input_size cnd) i of
             (Some e, m1, i1) \<Rightarrow> (Some e, m1, i1)
           | (None, m1, i1) \<Rightarrow> send_to_pass mem m1 ins cs i1))"

function send_to_passes ::
  "'v memory \<Rightarrow> 'v mdf \<Rightarrow> instruction \<Rightarrow> instruction list \<Rightarrow> nat \<Rightarrow> nat \<Rightarrow> (error option \<times> 'v mdf) option" where
  "send_to_passes mem m ins other osz i =
     (if i < osz then
        (case send_to_pass mem m ins other i of
           (Some e, m1, i1) \<Rightarrow> Some (Some e, m1)
         | (None, m1, i1) \<Rightarrow> if i1 \<le> i then None else send_to_passes mem m1 ins other osz i1)
      else Some (None, m))"
  by pat_completeness auto
termination
  by (relation "measure (\<lambda>(mem, m, ins, other, osz, i). osz - i)") auto

definition Mdf_send_to_vector ::
  "'v memory \<Rightarrow> 'v mdf \<Rightarrow> instruction \<Rightarrow> instruction list \<Rightarrow> (error option \<times> 'v mdf) option" where
  "Mdf_send_to_vector mem m ins other =
     (if \<exists>c \<in> set other. ins_graph_id c \<noteq> ins_graph_id ins then Some (Some NotSameGraph, m)
      else case deref mem m ins of
        None \<Rightarrow> Some (Some UndefinedBehaviour, m)
      | Some nd \<Rightarrow> send_to_passes mem m ins other (output_size nd) 0)"

text \<open>
  \<open>Graph::transfer_tokens\<close>.  For each pair \<open>(node_id, token_id)\<close> of the output map the
  body performs two accesses to the target node, in this order: the atomic
  \<open>_tokens_count.fetch_sub(1)\<close>, then the store \<open>vec[token_id] = output->at(i++)\<close>.  They
  are two functions here, so that the state between them can be named.
\<close>

definition transfer_decrement :: "'v graph \<Rightarrow> nat \<Rightarrow> error + 'v graph" where
  "transfer_decrement g nid =
     (if nid \<ge> length (nodes g) then Inl StdOutOfRange
      else Inr (update_node g nid (\<lambda>nd. nd\<lparr>tokens_count := tokens_count nd - 1\<rparr>)))"

definition transfer_store ::
  "'v graph \<Rightarrow> nat \<Rightarrow> nat \<Rightarrow> 'v token_vector_t option \<Rightarrow> nat \<Rightarrow> error + 'v graph" where
  "transfer_store g nid tid output i =
     (case output of
        None \<Rightarrow> Inl UndefinedBehaviour
      | Some ov \<Rightarrow>
          if i \<ge> length ov then Inl StdOutOfRange
          else if nid \<ge> length (nodes g) then Inl UndefinedBehaviour
          else if tid \<ge> length (input_tokens (nodes g ! nid)) then Inl UndefinedBehaviour
          else Inr (update_node g nid (\<lambda>nd. nd\<lparr>input_tokens := (input_tokens nd)[tid := ov ! i]\<rparr>)))"

fun transfer_tokens_from ::
  "'v graph \<Rightarrow> 'v token_vector_t option \<Rightarrow> token_map_t \<Rightarrow> nat \<Rightarrow> error + 'v graph" where
  "transfer_tokens_from g output [] i = Inr g"
| "transfer_tokens_from g output (token_info # rest) i =
     (case transfer_decrement g (fst token_info) of
        Inl e \<Rightarrow> Inl e
      | Inr g1 \<Rightarrow>
          (case transfer_store g1 (fst token_info) (snd token_info) output i of
             Inl e \<Rightarrow> Inl e
           | Inr g2 \<Rightarrow> transfer_tokens_from g2 output rest (i + 1)))"

definition Graph_transfer_tokens ::
  "'v graph \<Rightarrow> 'v token_vector_t option \<Rightarrow> token_map_t \<Rightarrow> error + 'v graph" where
  "Graph_transfer_tokens g output omap = transfer_tokens_from g output omap 0"

text \<open>
  \<open>Graph::send_input_tokens\<close> stores the \<open>k\<close>-th argument in slot \<open>k\<close> of the input node,
  through the unchecked \<open>vec[index]\<close>.  The template is not instantiable without
  arguments.
\<close>

definition send_input_tokens :: "'v graph \<Rightarrow> 'v list \<Rightarrow> error + 'v graph" where
  "send_input_tokens g args =
     (let k = nat (input_node g) in
      if input_node g < 0 \<or> k \<ge> length (nodes g) then Inl StdOutOfRange
      else if args = [] \<or> length args > length (input_tokens (nodes g ! k)) then Inl UndefinedBehaviour
      else Inr (update_node g k
             (\<lambda>nd. nd\<lparr>input_tokens :=
                map (\<lambda>a. Some (TokenSlot a)) args @ drop (length args) (input_tokens nd)\<rparr>)))"

subsection \<open>executor.hpp\<close>

text \<open>
  A graph handler owns the graph of one run instance and the promise of its result.  Handlers
  are heap objects; the executor state keeps them in \<open>handlers\<close>, and a handler's address is
  its index there.  A job is a handler address and a node id.

  The nodes of the instance are allocated by the copy, which does not initialise their flags
  \<open>_processed\<close>.  \<open>flag_memory\<close> is what the memory of these flags holds when the nodes
  are allocated, node by node: a parameter of the run, which the program does not control
  (all clear when the allocator returns zeroed memory or the library initialises the flag).
  \<open>flag\<close> is what a \<open>test_and_set\<close> on the flag of node \<open>k\<close> returns.
\<close>

record 'v GraphHandler =
  promise :: "'v token_vector_t option option"
  h_graph :: "'v graph"
  deleted :: bool
  flag_memory :: "nat \<Rightarrow> bool"

definition flag :: "'v GraphHandler \<Rightarrow> nat \<Rightarrow> bool" where
  "flag hdl k = (case processed (nodes (h_graph hdl) ! k) of None \<Rightarrow> flag_memory hdl k | Some b \<Rightarrow> b)"

type_synonym Job = "nat \<times> nat"

text \<open>
  The position of a worker thread in its loop, with its local variables.  Every constructor
  but the first three names the next access to shared memory the thread will make:
  \<^item> \<open>Popped\<close>: holds a job, about to call \<open>node->execute()\<close>;
  \<^item> \<open>Finishing\<close>: the node was the output node, about to fulfil the promise and delete the graph;
  \<^item> \<open>Transfer\<close>: inside \<open>transfer_tokens\<close>, at the head of the remaining output map with
    index \<open>i\<close>; the flag tells whether the \<open>fetch_sub\<close> for that pair has been done;
  \<^item> \<open>Load\<close>, \<open>Claim\<close>, \<open>Enqueue\<close>: inside the loop over the successors, at the head of the
    remaining list: about to read \<open>_tokens_count\<close>, to \<open>test_and_set\<close> the flag
    \<open>_processed\<close>, to push the job.
\<close>

datatype 'v worker =
    Waiting
  | Returned
  | Crashed error
  | Popped Job
  | Finishing Job "'v token_vector_t option"
  | Transfer Job "'v token_vector_t option" token_map_t nat bool
  | Load Job "nat list"
  | Claim Job "nat list"
  | Enqueue Job "nat list"

record 'v Executor =
  workers :: "'v worker list"
  job_queue :: "Job list"
  graph_pool :: "nat list"
  stop :: bool
  handlers :: "'v GraphHandler list"

text \<open>What an execution does that the claims speak about.\<close>

datatype event =
    Enqueued Job
  | Fired Job
  | Claimed Job
  | Decremented nat nat
  | Stored nat nat nat

definition Executor :: "nat \<Rightarrow> 'v Executor" where
  "Executor thread_n =
     \<lparr> workers = replicate thread_n Waiting, job_queue = [], graph_pool = [], stop = False,
       handlers = [] \<rparr>"

text \<open>
  \<open>Executor::run\<close>: validate the template, copy its graph into a new handler, store the
  arguments, push the job of the input node, register the handler.  No worker can reach the
  handler before the job is pushed, and no worker reads \<open>_graph_pool\<close>, so the call is one
  step of the model.  The validated template is returned to the caller.  The last argument
  is the content of the memory the flags of the new nodes are allocated in.
\<close>

definition Executor_run ::
  "'v Executor \<Rightarrow> 'v mdf \<Rightarrow> 'v list \<Rightarrow> (nat \<Rightarrow> bool) \<Rightarrow>
   (error option \<times> 'v mdf \<times> 'v Executor \<times> event list) option" where
  "Executor_run ex m input_args mem_flags =
     (case Mdf_validate m of
        None \<Rightarrow> None
      | Some (Some e, m1) \<Rightarrow> Some (Some e, m1, ex, [])
      | Some (None, m1) \<Rightarrow>
          (case send_input_tokens (Graph_copy (graph m1)) input_args of
             Inl e \<Rightarrow> Some (Some e, m1, ex, [])
           | Inr g \<Rightarrow>
               let h = length (handlers ex);
                   job = (h, nat (input_node g))
               in Some (None, m1,
                    ex\<lparr> handlers := handlers ex @
                          [\<lparr> promise = None, h_graph = g, deleted = False, flag_memory = mem_flags \<rparr>],
                        job_queue := job_queue ex @ [job],
                        graph_pool := graph_pool ex @ [h] \<rparr>,
                    [Enqueued job])))"

definition set_worker :: "'v Executor \<Rightarrow> nat \<Rightarrow> 'v worker \<Rightarrow> 'v Executor" where
  "set_worker ex w p = ex\<lparr>workers := (workers ex)[w := p]\<rparr>"

definition set_graph :: "'v Executor \<Rightarrow> nat \<Rightarrow> 'v graph \<Rightarrow> 'v Executor" where
  "set_graph ex h g = ex\<lparr>handlers := (handlers ex)[h := (handlers ex ! h)\<lparr>h_graph := g\<rparr>]\<rparr>"

definition next_successor :: "Job \<Rightarrow> nat list \<Rightarrow> 'v worker" where
  "next_successor job rest = (if rest = [] then Waiting else Load job rest)"

definition next_transfer ::
  "'v graph \<Rightarrow> Job \<Rightarrow> 'v token_vector_t option \<Rightarrow> token_map_t \<Rightarrow> nat \<Rightarrow> 'v worker" where
  "next_transfer g job output rest i =
     (if rest = [] then next_successor job (successors (nodes g ! snd job))
      else Transfer job output rest i False)"

text \<open>
  One access of worker \<open>w\<close> to shared memory, with the local computation up to the next one.
  A worker whose next access is undefined, or that lets an exception escape, stops in
  \<open>Crashed\<close>.  A waiting worker does not move while the queue is empty and \<open>_stop\<close> is clear.
  A \<open>test_and_set\<close> that finds the flag set leaves it set, so only the one that finds it
  clear changes the state.
\<close>

definition worker_step :: "nat \<Rightarrow> 'v Executor \<Rightarrow> 'v Executor \<times> event list" where
  "worker_step w ex =
     (if w \<ge> length (workers ex) then (ex, [])
      else case workers ex ! w of
        Waiting \<Rightarrow>
          (case job_queue ex of
             [] \<Rightarrow> if stop ex then (set_worker ex w Returned, []) else (ex, [])
           | job # q \<Rightarrow> (set_worker (ex\<lparr>job_queue := q\<rparr>) w (Popped job), []))
      | Returned \<Rightarrow> (ex, [])
      | Crashed e \<Rightarrow> (ex, [])
      | Popped job \<Rightarrow>
          (let hdl = handlers ex ! fst job; g = h_graph hdl in
           if fst job \<ge> length (handlers ex) \<or> deleted hdl then (set_worker ex w (Crashed UndefinedBehaviour), [])
           else if snd job \<ge> length (nodes g) then (set_worker ex w (Crashed StdOutOfRange), [])
           else case Node_execute (nodes g ! snd job) of
             Inl e \<Rightarrow> (set_worker ex w (Crashed e), [Fired job])
           | Inr output \<Rightarrow>
               if is_output (nodes g ! snd job) then (set_worker ex w (Finishing job output), [Fired job])
               else (set_worker ex w (next_transfer g job output (output_map (nodes g ! snd job)) 0),
                     [Fired job]))
      | Finishing job output \<Rightarrow>
          (let hdl = handlers ex ! fst job in
           if fst job \<ge> length (handlers ex) \<or> deleted hdl \<or> promise hdl \<noteq> None
             then (set_worker ex w (Crashed UndefinedBehaviour), [])
           else (set_worker (ex\<lparr>handlers := (handlers ex)[fst job := hdl\<lparr>promise := Some output, deleted := True\<rparr>]\<rparr>)
                   w Waiting, []))
      | Transfer job output rest i decremented \<Rightarrow>
          (let hdl = handlers ex ! fst job; g = h_graph hdl in
           if fst job \<ge> length (handlers ex) \<or> deleted hdl \<or> rest = []
             then (set_worker ex w (Crashed UndefinedBehaviour), [])
           else if \<not> decremented then
             (case transfer_decrement g (fst (hd rest)) of
                Inl e \<Rightarrow> (set_worker ex w (Crashed e), [])
              | Inr g1 \<Rightarrow> (set_worker (set_graph ex (fst job) g1) w (Transfer job output rest i True),
                           [Decremented (fst job) (fst (hd rest))]))
           else
             (case transfer_store g (fst (hd rest)) (snd (hd rest)) output i of
                Inl e \<Rightarrow> (set_worker ex w (Crashed e), [])
              | Inr g1 \<Rightarrow> (set_worker (set_graph ex (fst job) g1) w (next_transfer g1 job output (tl rest) (i + 1)),
                           [Stored (fst job) (fst (hd rest)) (snd (hd rest))])))
      | Load job rest \<Rightarrow>
          (let hdl = handlers ex ! fst job; g = h_graph hdl in
           if fst job \<ge> length (handlers ex) \<or> deleted hdl \<or> rest = []
             then (set_worker ex w (Crashed UndefinedBehaviour), [])
           else if hd rest \<ge> length (nodes g) then (set_worker ex w (Crashed StdOutOfRange), [])
           else if tokens_count (nodes g ! hd rest) = 0 then (set_worker ex w (Claim job rest), [])
           else (set_worker ex w (next_successor job (tl rest)), []))
      | Claim job rest \<Rightarrow>
          (let hdl = handlers ex ! fst job; g = h_graph hdl in
           if fst job \<ge> length (handlers ex) \<or> deleted hdl \<or> rest = []
             then (set_worker ex w (Crashed UndefinedBehaviour), [])
           else if hd rest \<ge> length (nodes g) then (set_worker ex w (Crashed StdOutOfRange), [])
           else if flag hdl (hd rest) then (set_worker ex w (next_successor job (tl rest)), [])
           else (set_worker (set_graph ex (fst job) (update_node g (hd rest) (\<lambda>nd. nd\<lparr>processed := Some True\<rparr>)))
                   w (Enqueue job rest), [Claimed (fst job, hd rest)]))
      | Enqueue job rest \<Rightarrow>
          (if rest = [] then (set_worker ex w (Crashed UndefinedBehaviour), [])
           else (set_worker (ex\<lparr>job_queue := job_queue ex @ [(fst job, hd rest)]\<rparr>) w
                   (next_successor job (tl rest)), [Enqueued (fst job, hd rest)])))"

text \<open>
  An execution is a schedule: at each point a worker makes a step, the caller submits a run,
  or the executor is told to stop (the destructor sets \<open>_stop\<close>).  The trace collects the
  events in order.
\<close>

datatype 'v action = Work nat | Submit "'v mdf" "'v list" "nat \<Rightarrow> bool" | Shutdown

definition step :: "'v action \<Rightarrow> 'v Executor \<Rightarrow> ('v Executor \<times> event list) option" where
  "step a ex =
     (case a of
        Work w \<Rightarrow> Some (worker_step w ex)
      | Submit m input_args mem_flags \<Rightarrow>
          (case Executor_run ex m input_args mem_flags of
             None \<Rightarrow> None
           | Some (r, m1, ex1, evs) \<Rightarrow> Some (ex1, evs))
      | Shutdown \<Rightarrow> Some (ex\<lparr>stop := True\<rparr>, []))"

fun execute :: "'v action list \<Rightarrow> 'v Executor \<Rightarrow> ('v Executor \<times> event list) option" where
  "execute [] ex = Some (ex, [])"
| "execute (a # as) ex =
     (case step a ex of
        None \<Rightarrow> None
      | Some (ex1, evs1) \<Rightarrow>
          (case execute as ex1 of
             None \<Rightarrow> None
           | Some (ex2, evs2) \<Rightarrow> Some (ex2, evs1 @ evs2)))"

section \<open>Vocabulary of the statements\<close>

text \<open>The token in slot \<open>s\<close> of node \<open>t\<close>.\<close>

definition slot :: "'v graph \<Rightarrow> nat \<Rightarrow> nat \<Rightarrow> 'v token option" where
  "slot g t s = input_tokens (nodes g ! t) ! s"

text \<open>Every pair of an output map names a node of the graph and a slot that node has.\<close>

definition slots_ok :: "'v graph \<Rightarrow> token_map_t \<Rightarrow> bool" where
  "slots_ok g omap =
     (\<forall>e \<in> set omap. fst e < length (nodes g) \<and> snd e < length (input_tokens (nodes g ! fst e)))"


section \<open>Vocabulary of the proofs about validation\<close>

text \<open>
  The invariant of the traversal for the root \<open>r\<close>: every node on the stack is visited, and
  every visited node that has left the stack is a node of the graph, has no edge to \<open>r\<close>, and
  has only successors that are visited and have left the stack.
\<close>
definition dfs_inv :: "'v graph \<Rightarrow> nat \<Rightarrow> bool list \<Rightarrow> bool list \<Rightarrow> bool" where
  "dfs_inv g r vis stk =
     (length stk = length vis
      \<and> (\<forall>n < length vis. stk ! n \<longrightarrow> vis ! n)
      \<and> (\<forall>n < length vis. vis ! n \<and> \<not> stk ! n \<longrightarrow>
            n < length (nodes g) \<and> r \<notin> set (successors (nodes g ! n))
            \<and> (\<forall>s \<in> set (successors (nodes g ! n)). s < length vis \<and> vis ! s \<and> \<not> stk ! s)))"

text \<open>The second array marks at least the nodes the first one marks.\<close>
definition grows :: "bool list \<Rightarrow> bool list \<Rightarrow> bool" where
  "grows vis vis' = (length vis' = length vis \<and> (\<forall>n < length vis. vis ! n \<longrightarrow> vis' ! n))"

text \<open>The nodes of a list are all visited and off the stack.\<close>
definition finished :: "bool list \<Rightarrow> bool list \<Rightarrow> nat list \<Rightarrow> bool" where
  "finished vis stk adjs = (\<forall>a \<in> set adjs. a < length vis \<and> vis ! a \<and> \<not> stk ! a)"

text \<open>The number of nodes not yet visited bounds the depth of the recursion.\<close>
definition unvisited :: "bool list \<Rightarrow> nat" where
  "unvisited vis = card {n. n < length vis \<and> \<not> vis ! n}"

text \<open>The nodes reachable from the input node along \<open>successors\<close>.\<close>
inductive_set reach :: "'v graph \<Rightarrow> nat set" for g :: "'v graph" where
  root: "nat (input_node g) \<in> reach g"
| edge: "n \<in> reach g \<Longrightarrow> n < length (nodes g) \<Longrightarrow> s \<in> set (successors (nodes g ! n)) \<Longrightarrow> s \<in> reach g"

text \<open>
  A graph is sealed when every node reachable from the input node exists and has no edge to
  the input node.
\<close>
definition sealed :: "'v graph \<Rightarrow> bool" where
  "sealed g = (\<forall>n \<in> reach g. n < length (nodes g) \<and> nat (input_node g) \<notin> set (successors (nodes g ! n)))"

text \<open>Enough fuel: the traversal returns, and a successful one only marks more nodes.\<close>
definition fuel_node :: "'v graph \<Rightarrow> nat \<Rightarrow> bool" where
  "fuel_node g f =
     (\<forall>i vis stk c. length stk = length vis \<longrightarrow> unvisited vis < f \<longrightarrow>
        check_node f g i (vis, stk, c) \<noteq> None
        \<and> (\<forall>vis' stk' c'. check_node f g i (vis, stk, c) = Some (None, (vis', stk', c')) \<longrightarrow>
              grows vis vis' \<and> length stk' = length vis'))"

definition fuel_succ :: "'v graph \<Rightarrow> nat \<Rightarrow> nat list \<Rightarrow> bool" where
  "fuel_succ g f adjs =
     (\<forall>vis stk c. length stk = length vis \<longrightarrow> unvisited vis < f \<longrightarrow>
        check_successors f g adjs (vis, stk, c) \<noteq> None
        \<and> (\<forall>vis' stk' c'. check_successors f g adjs (vis, stk, c) = Some (None, (vis', stk', c')) \<longrightarrow>
              grows vis vis' \<and> length stk' = length vis'))"

text \<open>What a successful call establishes, for \<open>check_node\<close> and for the loop over the successors.\<close>
definition node_post :: "'v graph \<Rightarrow> nat \<Rightarrow> nat \<Rightarrow> bool" where
  "node_post g r fuel =
     (\<forall>i vis stk c st'. check_node fuel g i (vis, stk, c) = Some (None, st') \<longrightarrow>
        dfs_inv g r vis stk \<longrightarrow> \<not> vis ! i \<longrightarrow>
        (i = r \<or> (r < length vis \<and> stk ! r)) \<longrightarrow>
        (\<exists>vis' c'. st' = (vis', stk, c') \<and> dfs_inv g r vis' stk \<and> vis' ! i \<and> grows vis vis'))"

definition succ_post :: "'v graph \<Rightarrow> nat \<Rightarrow> nat \<Rightarrow> nat list \<Rightarrow> bool" where
  "succ_post g r fuel adjs =
     (\<forall>vis stk c st'. check_successors fuel g adjs (vis, stk, c) = Some (None, st') \<longrightarrow>
        dfs_inv g r vis stk \<longrightarrow> r < length vis \<longrightarrow> stk ! r \<longrightarrow>
        (\<exists>vis' c'. st' = (vis', stk, c') \<and> dfs_inv g r vis' stk \<and> grows vis vis'
           \<and> finished vis' stk adjs))"

section \<open>Vocabulary of the proofs about the executor\<close>

text \<open>
  The jobs pushed on the queue, the jobs whose node was executed and the jobs whose flag a
  \<open>test_and_set\<close> found clear, in the order of the trace.
\<close>

definition enqueues :: "event list \<Rightarrow> Job list" where
  "enqueues tr = concat (map (\<lambda>e. case e of Enqueued j \<Rightarrow> [j] | _ \<Rightarrow> []) tr)"

definition fires :: "event list \<Rightarrow> Job list" where
  "fires tr = concat (map (\<lambda>e. case e of Fired j \<Rightarrow> [j] | _ \<Rightarrow> []) tr)"

definition claims :: "event list \<Rightarrow> Job list" where
  "claims tr = concat (map (\<lambda>e. case e of Claimed j \<Rightarrow> [j] | _ \<Rightarrow> []) tr)"

text \<open>
  Every occurrence of the event \<open>b\<close> in the trace has an occurrence of \<open>a\<close> before it.
\<close>

definition precedes :: "event \<Rightarrow> event \<Rightarrow> event list \<Rightarrow> bool" where
  "precedes a b tr = (\<forall>i < length tr. tr ! i = b \<longrightarrow> a \<in> set (take i tr))"

text \<open>
  The graph of the run instance \<open>h\<close>, its input node, and the jobs of the input nodes of all
  instances: the jobs that \<open>run\<close> pushes.
\<close>

definition instance_graph :: "'v Executor \<Rightarrow> nat \<Rightarrow> 'v graph" where
  "instance_graph ex h = h_graph (handlers ex ! h)"

definition input_of :: "'v Executor \<Rightarrow> nat \<Rightarrow> nat" where
  "input_of ex h = nat (input_node (instance_graph ex h))"

definition seeds :: "'v Executor \<Rightarrow> Job list" where
  "seeds ex = map (\<lambda>h. (h, input_of ex h)) [0 ..< length (handlers ex)]"

text \<open>
  The job a worker has popped and not yet executed, and the job a worker has claimed and not
  yet pushed.
\<close>

definition held :: "'v worker \<Rightarrow> Job multiset" where
  "held p = (case p of Popped j \<Rightarrow> {#j#} | _ \<Rightarrow> {#})"

definition pending :: "'v worker \<Rightarrow> Job multiset" where
  "pending p = (case p of Enqueue j rest \<Rightarrow> {#(fst j, hd rest)#} | _ \<Rightarrow> {#})"

text \<open>
  A job names an existing instance and a node of it that is reachable from the input node.
\<close>

definition job_ok :: "'v Executor \<Rightarrow> Job \<Rightarrow> bool" where
  "job_ok ex j =
     (fst j < length (handlers ex) \<and> snd j \<in> reach (instance_graph ex (fst j))
      \<and> snd j < length (nodes (instance_graph ex (fst j))))"

text \<open>
  The successors of the node of a job.
\<close>

definition successors_of :: "'v Executor \<Rightarrow> Job \<Rightarrow> nat list" where
  "successors_of ex j = successors (nodes (instance_graph ex (fst j)) ! snd j)"

text \<open>
  The job in the hands of a worker is such a job, and the successors it still has to look at
  are successors of its node.
\<close>

definition worker_ok :: "'v Executor \<Rightarrow> 'v worker \<Rightarrow> bool" where
  "worker_ok ex p =
     (case p of
        Waiting \<Rightarrow> True
      | Returned \<Rightarrow> True
      | Crashed e \<Rightarrow> True
      | Popped j \<Rightarrow> job_ok ex j
      | Finishing j out \<Rightarrow> job_ok ex j
      | Transfer j out rest i d \<Rightarrow> job_ok ex j
      | Load j rest \<Rightarrow> job_ok ex j \<and> set rest \<subseteq> set (successors_of ex j)
      | Claim j rest \<Rightarrow> job_ok ex j \<and> set rest \<subseteq> set (successors_of ex j)
      | Enqueue j rest \<Rightarrow> job_ok ex j \<and> set rest \<subseteq> set (successors_of ex j) \<and> rest \<noteq> [])"

text \<open>
  The steps of a worker, as a relation: \<open>worker_step\<close> with the values it computes left
  open where the proofs do not need them (lemma \<open>worker_step_moves\<close>).  Worker \<open>w\<close> takes
  the executor from the first state to the second and emits the events.
\<close>

inductive moves :: "nat \<Rightarrow> 'v Executor \<Rightarrow> 'v Executor \<Rightarrow> event list \<Rightarrow> bool" for w :: nat where
  m_idle: "moves w ex ex []"
| m_quiet: "p = Returned \<or> p = Crashed e \<or> p = Waiting \<Longrightarrow> moves w ex (set_worker ex w p) []"
| m_pop: "w < length (workers ex) \<Longrightarrow> workers ex ! w = Waiting \<Longrightarrow> job_queue ex = job # q \<Longrightarrow>
     moves w ex (set_worker (ex\<lparr>job_queue := q\<rparr>) w (Popped job)) []"
| m_fire: "w < length (workers ex) \<Longrightarrow> workers ex ! w = Popped job \<Longrightarrow> fst job < length (handlers ex) \<Longrightarrow>
     snd job < length (nodes (instance_graph ex (fst job))) \<Longrightarrow>
     p = Crashed e \<or> p = Finishing job out \<or> p = Waiting
     \<or> p = Transfer job out (output_map (nodes (instance_graph ex (fst job)) ! snd job)) 0 False
     \<or> p = Load job (successors_of ex job) \<Longrightarrow>
     moves w ex (set_worker ex w p) [Fired job]"
| m_finish: "w < length (workers ex) \<Longrightarrow> workers ex ! w = Finishing job out \<Longrightarrow> fst job < length (handlers ex) \<Longrightarrow>
     moves w ex
       (set_worker (ex\<lparr>handlers := (handlers ex)[fst job :=
            (handlers ex ! fst job)\<lparr>promise := Some out, deleted := True\<rparr>]\<rparr>) w Waiting) []"
| m_decrement: "w < length (workers ex) \<Longrightarrow> workers ex ! w = Transfer job out rest i False \<Longrightarrow> rest \<noteq> [] \<Longrightarrow>
     fst job < length (handlers ex) \<Longrightarrow> fst (hd rest) < length (nodes (instance_graph ex (fst job))) \<Longrightarrow>
     moves w ex
       (set_worker (set_graph ex (fst job)
          (update_node (instance_graph ex (fst job)) (fst (hd rest))
             (\<lambda>nd. nd\<lparr>tokens_count := tokens_count nd - 1\<rparr>))) w (Transfer job out rest i True))
       [Decremented (fst job) (fst (hd rest))]"
| m_store: "w < length (workers ex) \<Longrightarrow> workers ex ! w = Transfer job out rest i True \<Longrightarrow> rest \<noteq> [] \<Longrightarrow>
     fst job < length (handlers ex) \<Longrightarrow>
     p = Transfer job out (tl rest) (i + 1) False \<or> p = Load job (successors_of ex job) \<or> p = Waiting \<Longrightarrow>
     moves w ex
       (set_worker (set_graph ex (fst job)
          (update_node (instance_graph ex (fst job)) (fst (hd rest))
             (\<lambda>nd. nd\<lparr>input_tokens := (input_tokens nd)[snd (hd rest) := tok]\<rparr>))) w p)
       [Stored (fst job) (fst (hd rest)) (snd (hd rest))]"
| m_load: "w < length (workers ex) \<Longrightarrow> workers ex ! w = Load job rest \<or> workers ex ! w = Claim job rest \<Longrightarrow> rest \<noteq> [] \<Longrightarrow>
     p = Claim job rest \<or> p = Load job (tl rest) \<Longrightarrow>
     moves w ex (set_worker ex w p) []"
| m_claim: "w < length (workers ex) \<Longrightarrow> workers ex ! w = Claim job rest \<Longrightarrow> rest \<noteq> [] \<Longrightarrow>
     fst job < length (handlers ex) \<Longrightarrow> hd rest < length (nodes (instance_graph ex (fst job))) \<Longrightarrow>
     \<not> flag (handlers ex ! fst job) (hd rest) \<Longrightarrow>
     moves w ex
       (set_worker (set_graph ex (fst job)
          (update_node (instance_graph ex (fst job)) (hd rest) (\<lambda>nd. nd\<lparr>processed := Some True\<rparr>))) w
          (Enqueue job rest))
       [Claimed (fst job, hd rest)]"
| m_enqueue: "w < length (workers ex) \<Longrightarrow> workers ex ! w = Enqueue job rest \<Longrightarrow> rest \<noteq> [] \<Longrightarrow>
     p = Load job (tl rest) \<or> p = Waiting \<Longrightarrow>
     moves w ex (set_worker (ex\<lparr>job_queue := job_queue ex @ [(fst job, hd rest)]\<rparr>) w p)
       [Enqueued (fst job, hd rest)]"

text \<open>
  What the steps of the workers never change in a graph: the input node and the successor
  lists.
\<close>

definition wiring :: "'v graph \<Rightarrow> int \<times> nat list list" where
  "wiring g = (input_node g, map successors (nodes g))"

text \<open>
  The jobs in the hands of all workers.
\<close>

definition helds :: "'v Executor \<Rightarrow> Job multiset" where
  "helds ex = sum_list (map held (workers ex))"

definition pendings :: "'v Executor \<Rightarrow> Job multiset" where
  "pendings ex = sum_list (map pending (workers ex))"

text \<open>
  Two executor states with the same instances and the same wiring in each; every flag that
  reads as set in the first reads as set in the second.
\<close>

definition same_wiring :: "'v Executor \<Rightarrow> 'v Executor \<Rightarrow> bool" where
  "same_wiring ex ex' =
     (length (handlers ex') = length (handlers ex)
      \<and> (\<forall>h. wiring (instance_graph ex' h) = wiring (instance_graph ex h)))"

definition flags_kept :: "'v Executor \<Rightarrow> 'v Executor \<Rightarrow> bool" where
  "flags_kept ex ex' =
     (\<forall>h k. flag (handlers ex ! h) k \<longrightarrow> flag (handlers ex' ! h) k)"

text \<open>
  The invariants of an execution.  Every instance is sealed; the jobs in the queue and in
  the hands of the workers are jobs of reachable nodes.
\<close>

definition inv_graphs :: "'v Executor \<Rightarrow> bool" where
  "inv_graphs ex = (\<forall>h < length (handlers ex). sealed (instance_graph ex h))"

definition inv_jobs :: "'v Executor \<Rightarrow> bool" where
  "inv_jobs ex = ((\<forall>j \<in> set (job_queue ex). job_ok ex j) \<and> (\<forall>p \<in> set (workers ex). worker_ok ex p))"

text \<open>
  A claimed job is the job of an existing node that is not an input node and whose flag
  reads as set; no job is claimed twice.
\<close>

definition claimed_ok :: "'v Executor \<Rightarrow> Job \<Rightarrow> bool" where
  "claimed_ok ex j =
     (fst j < length (handlers ex) \<and> snd j < length (nodes (instance_graph ex (fst j)))
      \<and> flag (handlers ex ! fst j) (snd j) \<and> snd j \<noteq> input_of ex (fst j))"

definition inv_claims :: "'v Executor \<Rightarrow> event list \<Rightarrow> bool" where
  "inv_claims ex tr = (distinct (claims tr) \<and> (\<forall>j \<in> set (claims tr). claimed_ok ex j))"

text \<open>
  Every job pushed, or about to be pushed, has been claimed or is the job of an input node;
  every job in the queue, in the hands of a worker or executed has been pushed: with
  multiplicities.
\<close>

definition inv_enq :: "'v Executor \<Rightarrow> event list \<Rightarrow> bool" where
  "inv_enq ex tr = (mset (enqueues tr) + pendings ex \<subseteq># mset (claims tr) + mset (seeds ex))"

definition inv_fire :: "'v Executor \<Rightarrow> event list \<Rightarrow> bool" where
  "inv_fire ex tr = (mset (job_queue ex) + helds ex + mset (fires tr) \<subseteq># mset (enqueues tr))"

text \<open>
  A job is executed after it is pushed, and a job other than that of an input node is pushed
  after it is claimed.
\<close>

definition inv_order :: "'v Executor \<Rightarrow> event list \<Rightarrow> bool" where
  "inv_order ex tr =
     ((\<forall>j. precedes (Enqueued j) (Fired j) tr)
      \<and> (\<forall>j. j \<notin> set (seeds ex) \<longrightarrow> precedes (Claimed j) (Enqueued j) tr))"

definition exec_inv :: "'v Executor \<Rightarrow> event list \<Rightarrow> bool" where
  "exec_inv ex tr =
     (inv_graphs ex \<and> inv_jobs ex \<and> inv_claims ex tr \<and> inv_enq ex tr \<and> inv_fire ex tr \<and> inv_order ex tr)"

text \<open>
  The second state has the instances of the first, with the same wiring and the flags that
  read as set still reading as set, and possibly more instances.
\<close>

definition extends :: "'v Executor \<Rightarrow> 'v Executor \<Rightarrow> bool" where
  "extends ex ex' =
     (length (handlers ex) \<le> length (handlers ex')
      \<and> (\<forall>h < length (handlers ex). wiring (instance_graph ex' h) = wiring (instance_graph ex h))
      \<and> (\<forall>h < length (handlers ex). \<forall>k. flag (handlers ex ! h) k \<longrightarrow> flag (handlers ex' ! h) k))"

text \<open>
  A template is well-formed when its being marked as validated implies that its graph is
  sealed.  The empty template is, and every operation of the builder and \<open>validate\<close> keep
  it so (lemmas \<open>template_wf_new\<close>, \<open>template_wf_add_node\<close>, \<open>template_wf_wire\<close>,
  \<open>template_wf_send_to\<close>, \<open>template_wf_send_to_variadic\<close>, \<open>template_wf_send_to_vector\<close>,
  \<open>template_wf_validate\<close>): the operations that add a node do not wire it, and those that
  wire nodes refuse a template marked as validated.
\<close>

definition template_wf :: "'v mdf \<Rightarrow> bool" where
  "template_wf m = (valid m \<longrightarrow> sealed (graph m))"

text \<open>
  The templates a schedule submits.
\<close>

definition submitted :: "'v action list \<Rightarrow> 'v mdf list" where
  "submitted sched = concat (map (\<lambda>a. case a of Submit m input_args mem_flags \<Rightarrow> [m] | _ \<Rightarrow> []) sched)"

text \<open>
  What the steps of the workers never change in a node: its output map and its input size.
\<close>

definition board :: "'v graph \<Rightarrow> (token_map_t \<times> nat) list" where
  "board g = map (\<lambda>nd. (output_map nd, input_size nd)) (nodes g)"

text \<open>
  The output map of node \<open>k\<close> of instance \<open>h\<close>, empty when there is no such node.
\<close>

definition routes_of :: "'v Executor \<Rightarrow> nat \<Rightarrow> nat \<Rightarrow> token_map_t" where
  "routes_of ex h k =
     (if h < length (handlers ex) \<and> k < length (nodes (instance_graph ex h))
      then output_map (nodes (instance_graph ex h) ! k) else [])"

text \<open>
  The number of pairs of an output map that name the node \<open>t\<close>.
\<close>

definition cnt :: "nat \<Rightarrow> token_map_t \<Rightarrow> nat" where
  "cnt t omap = length (filter (\<lambda>e. fst e = t) omap)"

text \<open>
  The number of decrements of the counter of node \<open>t\<close> of instance \<open>h\<close> in a trace.
\<close>

definition decs :: "event list \<Rightarrow> nat \<Rightarrow> nat \<Rightarrow> nat" where
  "decs tr h t = length (filter (\<lambda>e. e = Decremented h t) tr)"

text \<open>
  The decrements of the counter of node \<open>t\<close> of instance \<open>h\<close> that a worker inside
  \<open>transfer_tokens\<close> has still to make, and their number over all workers.
\<close>

definition owes :: "'v worker \<Rightarrow> nat \<Rightarrow> nat \<Rightarrow> nat" where
  "owes p h t =
     (case p of
        Transfer j out rest i d \<Rightarrow> if fst j = h then cnt t (if d then tl rest else rest) else 0
      | _ \<Rightarrow> 0)"

definition owed :: "'v Executor \<Rightarrow> nat \<Rightarrow> nat \<Rightarrow> nat" where
  "owed ex h t = sum_list (map (\<lambda>p. owes p h t) (workers ex))"

text \<open>
  The number of pairs naming node \<open>t\<close> in the output maps of the nodes of instance \<open>h\<close>
  whose jobs are in the list \<open>js\<close>.
\<close>

definition supplied :: "'v Executor \<Rightarrow> Job list \<Rightarrow> nat \<Rightarrow> nat \<Rightarrow> nat" where
  "supplied ex js h t = sum_list (map (\<lambda>j. if fst j = h then cnt t (routes_of ex h (snd j)) else 0) js)"

text \<open>
  The number of pairs naming node \<open>t\<close> in the output maps of all nodes of a graph.
\<close>

definition incoming :: "'v graph \<Rightarrow> nat \<Rightarrow> nat" where
  "incoming g t = sum_list (map (\<lambda>nd. cnt t (output_map nd)) (nodes g))"

text \<open>
  The invariant of the counters: the decrements made and those still to be made by workers
  inside \<open>transfer_tokens\<close> are covered by the output maps of the nodes executed, and the
  counter of a node is its input size, narrowed to 32 bits, minus the decrements made.
\<close>

definition count_inv :: "'v Executor \<Rightarrow> event list \<Rightarrow> bool" where
  "count_inv ex tr =
     ((\<forall>h t. decs tr h t + owed ex h t \<le> supplied ex (fires tr) h t)
      \<and> (\<forall>h < length (handlers ex). \<forall>t < length (nodes (instance_graph ex h)).
            tokens_count (nodes (instance_graph ex h) ! t) + word_of_nat (decs tr h t)
              = word_of_nat (input_size (nodes (instance_graph ex h) ! t))))"

text \<open>
  Two executor states whose instances have the same output maps and input sizes.
\<close>

definition same_board :: "'v Executor \<Rightarrow> 'v Executor \<Rightarrow> bool" where
  "same_board ex ex' = (\<forall>h. board (instance_graph ex' h) = board (instance_graph ex h))"

text \<open>
  The output maps and input sizes of the chain, and the executor states all of whose
  instances have them.
\<close>

definition chain_board :: "(token_map_t \<times> nat) list" where
  "chain_board = [([(1, 0)], 1), ([(2, 0)], 2), ([], 1)]"

definition chain_only :: "'v Executor \<Rightarrow> bool" where
  "chain_only ex = (\<forall>h < length (handlers ex). board (instance_graph ex h) = chain_board)"

section \<open>Templates used as concrete inputs\<close>

text \<open>No other template exists beside the one under construction.\<close>

definition no_mem :: "'v memory" where
  "no_mem = (\<lambda>a. None)"

text \<open>
  A chain of three nodes at address 1000: node 0 is \<open>SPLIT(1)\<close>, node 1 is \<open>MERGE(2)\<close>, node 2
  is \<open>MERGE(1)\<close>; the only edges are \<open>0 \<rightarrow> (1, 0)\<close> and \<open>1 \<rightarrow> (2, 0)\<close>, so slot 1 of node 1
  has no producer.  Node 0 is marked as input and node 2 as output.
\<close>

definition chain_nodes :: "nat mdf" where
  "chain_nodes = snd (Mdf_merge_node (snd (Mdf_merge_node (snd (Mdf_split_node (Mdf 1000) 1)) 2)) 1)"

definition chain_wired :: "nat mdf" where
  "chain_wired =
     snd (Mdf_add_output (snd (Mdf_add_output chain_nodes (Instruction 0 1000) (1, 0)))
            (Instruction 1 1000) (2, 0))"

definition chain_marked :: "nat mdf" where
  "chain_marked =
     snd (Mdf_mark_as_output no_mem (snd (Mdf_mark_as_input no_mem chain_wired (Instruction 0 1000)))
            (Instruction 2 1000))"

definition chain_validated :: "nat mdf" where
  "chain_validated = snd (the (Mdf_validate chain_marked))"

text \<open>
  A template whose first validation fails: node 0 is \<open>SPLIT(1)\<close> wired to node 1, a
  \<open>MERGE(1)\<close>; node 2 is a \<open>MERGE(1)\<close> that nothing reaches.  After the failure the caller
  adds node 3, another unreachable \<open>MERGE(1)\<close>.
\<close>

definition island_marked :: "nat mdf" where
  "island_marked =
     (let m3 = snd (Mdf_merge_node (snd (Mdf_merge_node (snd (Mdf_split_node (Mdf 1000) 1)) 1)) 1);
          m4 = snd (Mdf_add_output m3 (Instruction 0 1000) (1, 0));
          m5 = snd (Mdf_mark_as_input no_mem m4 (Instruction 0 1000))
      in snd (Mdf_mark_as_output no_mem m5 (Instruction 1 1000)))"

definition island_rejected :: "nat mdf" where
  "island_rejected = snd (the (Mdf_validate island_marked))"

definition island_grown :: "nat mdf" where
  "island_grown = snd (Mdf_merge_node island_rejected 1)"

text \<open>
  Node 0 is \<open>SPLIT(1)\<close>, node 1 is \<open>MERGE(33)\<close>; the single edge is \<open>0 \<rightarrow> (1, 32)\<close>, so
  slots 0 to 31 of node 1 are not wired.
\<close>

definition wide_wired :: "nat mdf" where
  "wide_wired =
     snd (Mdf_add_output (snd (Mdf_merge_node (snd (Mdf_split_node (Mdf 1000) 1)) 33))
            (Instruction 0 1000) (1, 32))"

text \<open>
  Node 0 is \<open>SPLIT(1)\<close>, nodes 1, 2 and 3 are \<open>MERGE(1)\<close>; the edges are \<open>0 \<rightarrow> (1, 0)\<close>
  and \<open>1 \<rightarrow> (2, 0)\<close>.  On \<open>detour_base\<close> the caller asks for the edge \<open>2 \<rightarrow> (1, 0)\<close>,
  which is refused because slot 0 of node 1 is wired; \<open>detour_refused\<close> is the template
  after this call.  \<open>detour_finish\<close> is the rest of the construction: the edge
  \<open>2 \<rightarrow> (3, 0)\<close>, node 0 marked as input and node 3 as output.
\<close>

definition detour_base :: "nat mdf" where
  "detour_base =
     snd (Mdf_add_output (snd (Mdf_add_output
       (snd (Mdf_merge_node (snd (Mdf_merge_node (snd (Mdf_merge_node (snd (Mdf_split_node (Mdf 1000) 1)) 1)) 1)) 1))
       (Instruction 0 1000) (1, 0))) (Instruction 1 1000) (2, 0))"

definition detour_refused :: "nat mdf" where
  "detour_refused = snd (Mdf_add_output detour_base (Instruction 2 1000) (1, 0))"

definition detour_finish :: "nat mdf \<Rightarrow> nat mdf" where
  "detour_finish m =
     snd (Mdf_mark_as_output no_mem
       (snd (Mdf_mark_as_input no_mem (snd (Mdf_add_output m (Instruction 2 1000) (3, 0))) (Instruction 0 1000)))
       (Instruction 3 1000))"

text \<open>Node 0 is \<open>SPLIT(2)\<close>, nodes 1 and 2 are \<open>MERGE(1)\<close>; nothing is wired.\<close>

definition fan_nodes :: "nat mdf" where
  "fan_nodes = snd (Mdf_merge_node (snd (Mdf_merge_node (snd (Mdf_split_node (Mdf 1000) 2)) 1)) 1)"

text \<open>The graph of a run instance of the chain, seeded with the argument 7.\<close>

definition chain_instance :: "nat graph" where
  "chain_instance = projr (send_input_tokens (Graph_copy (graph chain_validated)) [7])"

text \<open>
  An executor with one worker after the chain has been submitted with the argument 7; the
  flags of the instance are allocated in memory that holds clear flags.
\<close>

definition chain_submitted :: "nat Executor" where
  "chain_submitted =
     \<lparr> workers = [Waiting], job_queue = [(0, 0)], graph_pool = [0], stop = False,
       handlers = [\<lparr> promise = None, h_graph = chain_instance, deleted = False,
                    flag_memory = (\<lambda>k. False) \<rparr>] \<rparr>"

text \<open>
  A join: node 0 is \<open>SPLIT(2)\<close>, nodes 1 and 2 are \<open>MERGE(1)\<close>, node 3 is \<open>MERGE(2)\<close>; the
  edges are \<open>0 \<rightarrow> (1, 0)\<close>, \<open>0 \<rightarrow> (2, 0)\<close>, \<open>1 \<rightarrow> (3, 0)\<close> and \<open>2 \<rightarrow> (3, 1)\<close>.  Node 0 is
  the input node and node 3 the output node; every slot is wired.
\<close>

definition join_nodes :: "nat mdf" where
  "join_nodes =
     snd (Mdf_merge_node (snd (Mdf_merge_node (snd (Mdf_merge_node (snd (Mdf_split_node (Mdf 1000) 2)) 1)) 1)) 2)"

definition join_wired :: "nat mdf" where
  "join_wired =
     snd (Mdf_add_output (snd (Mdf_add_output (snd (Mdf_add_output (snd (Mdf_add_output join_nodes
       (Instruction 0 1000) (1, 0))) (Instruction 0 1000) (2, 0))) (Instruction 1 1000) (3, 0)))
       (Instruction 2 1000) (3, 1))"

definition join_marked :: "nat mdf" where
  "join_marked =
     snd (Mdf_mark_as_output no_mem (snd (Mdf_mark_as_input no_mem join_wired (Instruction 0 1000)))
            (Instruction 3 1000))"

text \<open>
  A schedule of two workers on one run of the join, whose flags are allocated in memory that
  holds clear flags.  Worker 0 fires node 0 and enqueues nodes 1
  and 2; worker 0 takes node 1 and worker 1 takes node 2; worker 0 fires node 1 and makes
  the first access of its \<open>transfer_tokens\<close> to node 3; worker 1 then fires node 2, completes
  \<open>transfer_tokens\<close>, enqueues node 3, takes it, fires it and fulfils the promise.
\<close>

definition join_schedule :: "nat action list" where
  "join_schedule =
     [Submit join_marked [7] (\<lambda>k. False),
      Work 0, Work 0, Work 0, Work 0, Work 0, Work 0, Work 0, Work 0, Work 0, Work 0, Work 0, Work 0,
      Work 0, Work 1, Work 0, Work 0,
      Work 1, Work 1, Work 1, Work 1, Work 1, Work 1, Work 1, Work 1, Work 1]"

text \<open>
  One worker runs the chain, whose flags are allocated in memory that holds clear flags, until
  it finds the queue empty; then the executor is shut down and the worker returns.
\<close>

definition chain_schedule :: "nat action list" where
  "chain_schedule =
     [Submit chain_marked [7] (\<lambda>k. False), Work 0, Work 0, Work 0, Work 0, Work 0, Shutdown, Work 0]"



section \<open>Evaluation\<close>

lemmas builder_defs =
  Mdf_def Graph_new_def Mdf_split_node_def Mdf_merge_node_def Graph_split_node_def
  Graph_merge_node_def Node_of_type_def Bitmask_def Instruction_def Mdf_add_output_def
  Mdf_set_output_def connect_def to_int32_def to_size_t_def update_node_def add_successor_def
  add_dependent_def Bitmask_set_def Mdf_mark_as_input_def Mdf_mark_as_output_def deref_def
  node_at_def Bitmask_all_zeros_def Bitmask_all_set_def MASK_def no_mem_def Let_def

lemma chain_nodes_eq:
  "chain_nodes = \<lparr> graph = \<lparr> nodes = [Node_of_type 0 SPLIT 1, Node_of_type 1 MERGE 2, Node_of_type 2 MERGE 1],
       output_node = -1, input_node = -1, counter = 0 \<rparr>, graph_id = 1000, valid = False \<rparr>"
  by (simp add: chain_nodes_def Mdf_def Graph_new_def Mdf_split_node_def Mdf_merge_node_def
      Graph_split_node_def Graph_merge_node_def Node_of_type_def)

lemma chain_marked_eq:
  "chain_marked = \<lparr> graph = \<lparr> nodes =
       [(Node_of_type 0 SPLIT 1)\<lparr>successors := [1], output_map := [(1, 0)]\<rparr>,
        (Node_of_type 1 MERGE 2)\<lparr>successors := [2], output_map := [(2, 0)],
           dependents := (Bitmask 2)\<lparr>bm_array := [1]\<rparr>\<rparr>,
        (Node_of_type 2 MERGE 1)\<lparr>dependents := (Bitmask 1)\<lparr>bm_array := [1]\<rparr>, is_output := True\<rparr>],
       output_node = 2, input_node = 0, counter = 0 \<rparr>, graph_id = 1000, valid = False \<rparr>"
  by (simp add: chain_marked_def chain_wired_def chain_nodes_eq builder_defs)

lemma chain_validate:
  "Mdf_validate chain_marked = Some (None, chain_marked\<lparr>graph := (graph chain_marked)\<lparr>counter := 3\<rparr>, valid := True\<rparr>)"
  by (simp add: chain_marked_eq Mdf_validate_def check_graph_def Node_of_type_def)

lemma chain_validated_eq:
  "chain_validated = chain_marked\<lparr>graph := (graph chain_marked)\<lparr>counter := 3\<rparr>, valid := True\<rparr>"
  by (simp add: chain_validated_def chain_validate)

lemma island_marked_eq:
  "island_marked = \<lparr> graph = \<lparr> nodes =
       [(Node_of_type 0 SPLIT 1)\<lparr>successors := [1], output_map := [(1, 0)]\<rparr>,
        (Node_of_type 1 MERGE 1)\<lparr>dependents := (Bitmask 1)\<lparr>bm_array := [1]\<rparr>, is_output := True\<rparr>,
        Node_of_type 2 MERGE 1],
       output_node = 1, input_node = 0, counter = 0 \<rparr>, graph_id = 1000, valid = False \<rparr>"
  by (simp add: island_marked_def builder_defs)

lemma island_validate:
  "Mdf_validate island_marked =
     Some (Some UnreachableNodes, island_marked\<lparr>graph := (graph island_marked)\<lparr>counter := 2\<rparr>\<rparr>)"
  by (simp add: island_marked_eq Mdf_validate_def check_graph_def Node_of_type_def)

lemma island_rejected_eq:
  "island_rejected = island_marked\<lparr>graph := (graph island_marked)\<lparr>counter := 2\<rparr>\<rparr>"
  by (simp add: island_rejected_def island_validate)

lemma island_grown_eq:
  "island_grown = \<lparr> graph = \<lparr> nodes =
       [(Node_of_type 0 SPLIT 1)\<lparr>successors := [1], output_map := [(1, 0)]\<rparr>,
        (Node_of_type 1 MERGE 1)\<lparr>dependents := (Bitmask 1)\<lparr>bm_array := [1]\<rparr>, is_output := True\<rparr>,
        Node_of_type 2 MERGE 1, Node_of_type 3 MERGE 1],
       output_node = 1, input_node = 0, counter = 2 \<rparr>, graph_id = 1000, valid = False \<rparr>"
  by (simp add: island_grown_def island_rejected_eq island_marked_eq
      Mdf_merge_node_def Graph_merge_node_def Node_of_type_def)

lemma replicate_two: "replicate 2 x = [x, x]"
  by (simp add: numeral_2_eq_2)

lemma send_to_loop_numeral:
  "send_to_loop mem (numeral k) m ins other = send_to_loop mem (Suc (pred_numeral k)) m ins other"
  by (simp add: numeral_eq_Suc)

lemma send_to_inputs_numeral:
  "send_to_inputs m ins cid j (numeral k) i = send_to_inputs m ins cid j (Suc (pred_numeral k)) i"
  by (simp add: numeral_eq_Suc)

lemma detour_base_eq:
  "detour_base = \<lparr> graph = \<lparr> nodes =
       [(Node_of_type 0 SPLIT 1)\<lparr>successors := [1], output_map := [(1, 0)]\<rparr>,
        (Node_of_type 1 MERGE 1)\<lparr>successors := [2], output_map := [(2, 0)],
           dependents := (Bitmask 1)\<lparr>bm_array := [1]\<rparr>\<rparr>,
        (Node_of_type 2 MERGE 1)\<lparr>dependents := (Bitmask 1)\<lparr>bm_array := [1]\<rparr>\<rparr>,
        Node_of_type 3 MERGE 1],
       output_node = -1, input_node = -1, counter = 0 \<rparr>, graph_id = 1000, valid = False \<rparr>"
  by (simp add: detour_base_def builder_defs)

lemma detour_refused_eq:
  "Mdf_add_output detour_base (Instruction 2 1000) (1, 0) = (Some SlotAlreadyWired,
     \<lparr> graph = \<lparr> nodes =
       [(Node_of_type 0 SPLIT 1)\<lparr>successors := [1], output_map := [(1, 0)]\<rparr>,
        (Node_of_type 1 MERGE 1)\<lparr>successors := [2], output_map := [(2, 0)],
           dependents := (Bitmask 1)\<lparr>bm_array := [1]\<rparr>\<rparr>,
        (Node_of_type 2 MERGE 1)\<lparr>successors := [1], dependents := (Bitmask 1)\<lparr>bm_array := [1]\<rparr>\<rparr>,
        Node_of_type 3 MERGE 1],
       output_node = -1, input_node = -1, counter = 0 \<rparr>, graph_id = 1000, valid = False \<rparr>)"
  by (simp add: detour_base_eq builder_defs)

lemma detour_finish_base:
  "detour_finish detour_base = \<lparr> graph = \<lparr> nodes =
       [(Node_of_type 0 SPLIT 1)\<lparr>successors := [1], output_map := [(1, 0)]\<rparr>,
        (Node_of_type 1 MERGE 1)\<lparr>successors := [2], output_map := [(2, 0)],
           dependents := (Bitmask 1)\<lparr>bm_array := [1]\<rparr>\<rparr>,
        (Node_of_type 2 MERGE 1)\<lparr>successors := [3], output_map := [(3, 0)],
           dependents := (Bitmask 1)\<lparr>bm_array := [1]\<rparr>\<rparr>,
        (Node_of_type 3 MERGE 1)\<lparr>dependents := (Bitmask 1)\<lparr>bm_array := [1]\<rparr>, is_output := True\<rparr>],
       output_node = 3, input_node = 0, counter = 0 \<rparr>, graph_id = 1000, valid = False \<rparr>"
  by (simp add: detour_finish_def detour_base_eq builder_defs)

lemma detour_finish_refused:
  "detour_finish detour_refused = \<lparr> graph = \<lparr> nodes =
       [(Node_of_type 0 SPLIT 1)\<lparr>successors := [1], output_map := [(1, 0)]\<rparr>,
        (Node_of_type 1 MERGE 1)\<lparr>successors := [2], output_map := [(2, 0)],
           dependents := (Bitmask 1)\<lparr>bm_array := [1]\<rparr>\<rparr>,
        (Node_of_type 2 MERGE 1)\<lparr>successors := [1, 3], output_map := [(3, 0)],
           dependents := (Bitmask 1)\<lparr>bm_array := [1]\<rparr>\<rparr>,
        (Node_of_type 3 MERGE 1)\<lparr>dependents := (Bitmask 1)\<lparr>bm_array := [1]\<rparr>, is_output := True\<rparr>],
       output_node = 3, input_node = 0, counter = 0 \<rparr>, graph_id = 1000, valid = False \<rparr>"
  using detour_refused_eq by (simp add: detour_finish_def detour_refused_def) (simp add: builder_defs)

section \<open>Claims settled by evaluation\<close>

text \<open>
  Claim C2 (validation succeeds exactly when the markers are set and distinct, the traversal
  finds no back edge and no incomplete output map, and the number of nodes reached equals the
  number of nodes).  \<open>check_graph\<close> compares the member \<open>_counter\<close> with the number of nodes,
  and nothing resets \<open>_counter\<close>.  The first validation of \<open>island_marked\<close> reaches 2 of 3
  nodes and is rejected, leaving the counter at 2.  After one more unreachable node is added,
  the second validation reaches the same 2 nodes, finds the counter at 4, the number of nodes,
  and accepts; with the counter back at 0 the same graph is rejected.
\<close>

theorem validate_counts_across_calls:
  "Mdf_validate island_marked = Some (Some UnreachableNodes, island_rejected)
   \<and> counter (graph island_rejected) = 2
   \<and> island_grown = snd (Mdf_merge_node island_rejected 1)
   \<and> length (nodes (graph island_grown)) = 4
   \<and> Mdf_validate island_grown
       = Some (None, island_grown\<lparr>graph := (graph island_grown)\<lparr>counter := 4\<rparr>, valid := True\<rparr>)
   \<and> check_graph ((graph island_grown)\<lparr>counter := 0\<rparr>)
       = Some (Some UnreachableNodes, (graph island_grown)\<lparr>counter := 2\<rparr>)"
proof -
  have "Mdf_validate island_marked = Some (Some UnreachableNodes, island_rejected)"
    by (simp add: island_validate island_rejected_eq)
  moreover have "counter (graph island_rejected) = 2"
    by (simp add: island_rejected_eq)
  moreover have "island_grown = snd (Mdf_merge_node island_rejected 1)"
    by (simp add: island_grown_def)
  moreover have "length (nodes (graph island_grown)) = 4"
    by (simp add: island_grown_eq)
  moreover have "Mdf_validate island_grown
       = Some (None, island_grown\<lparr>graph := (graph island_grown)\<lparr>counter := 4\<rparr>, valid := True\<rparr>)"
    by (simp add: island_grown_eq Mdf_validate_def check_graph_def Node_of_type_def)
  moreover have "check_graph ((graph island_grown)\<lparr>counter := 0\<rparr>)
       = Some (Some UnreachableNodes, (graph island_grown)\<lparr>counter := 2\<rparr>)"
    by (simp add: island_grown_eq check_graph_def Node_of_type_def)
  ultimately show ?thesis by blast
qed

text \<open>
  Claim C5 (\<open>mark_as_output\<close> succeeds only when every input slot of the node has its
  dependent bit set, for every input size).  Node 1 of \<open>wide_wired\<close> has 33 input slots, of
  which only slot 32 is wired: word 0 of its mask is 0 and word 1 is 1.  \<open>all_set\<close> compares
  only the last word with \<open>LAST_MASK\<close>, so \<open>mark_as_output\<close> succeeds and records the node.
\<close>

theorem mark_as_output_accepts_unwired_slots:
  "input_size (nodes (graph wide_wired) ! 1) = 33
   \<and> bm_array (dependents (nodes (graph wide_wired) ! 1)) = [0, 1]
   \<and> Bitmask_all_set (dependents (nodes (graph wide_wired) ! 1)) = Some True
   \<and> fst (Mdf_mark_as_output no_mem wide_wired (Instruction 1 1000)) = None
   \<and> output_node (graph (snd (Mdf_mark_as_output no_mem wide_wired (Instruction 1 1000)))) = 1
   \<and> is_output (nodes (graph (snd (Mdf_mark_as_output no_mem wide_wired (Instruction 1 1000)))) ! 1)"
  by (simp add: wide_wired_def builder_defs replicate_two)

text \<open>
  Claim C6 (every builder operation fails after \<open>validate()\<close> has succeeded).
  \<open>chain_validated\<close> is a template on which \<open>validate()\<close> has succeeded; \<open>split_node\<close>,
  \<open>merge_node\<close> and the two \<open>emplace_back\<close> do not test \<open>_valid\<close>, and each appends a
  fourth node to it.
\<close>

theorem add_node_after_validate:
  "Mdf_validate chain_marked = Some (None, chain_validated)
   \<and> valid chain_validated
   \<and> length (nodes (graph chain_validated)) = 3
   \<and> fst (Mdf_split_node chain_validated 1) = Inr (Instruction 3 1000)
   \<and> length (nodes (graph (snd (Mdf_split_node chain_validated 1)))) = 4
   \<and> fst (Mdf_merge_node chain_validated 1) = Inr (Instruction 3 1000)
   \<and> length (nodes (graph (snd (Mdf_merge_node chain_validated 1)))) = 4
   \<and> fst (Mdf_emplace_back_instruction no_mem chain_validated (Instruction 0 1000)) = Inr (Instruction 3 1000)
   \<and> length (nodes (graph (snd (Mdf_emplace_back_instruction no_mem chain_validated (Instruction 0 1000))))) = 4
   \<and> length (nodes (graph (snd (Mdf_emplace_back chain_validated (FunctionImp 1 1 id))))) = 4"
proof -
  have "Mdf_validate chain_marked = Some (None, chain_validated)"
    by (simp add: chain_validate chain_validated_eq)
  then show ?thesis
    by (simp add: chain_validated_eq chain_marked_eq Mdf_split_node_def Mdf_merge_node_def
      Graph_split_node_def Graph_merge_node_def Mdf_emplace_back_instruction_def Mdf_emplace_back_def
      Graph_emplace_back_def Graph_emplace_back_node_def deref_def node_at_def Instruction_def)
qed

text \<open>
  Claim C7 (a builder operation that raises a construction error leaves the template
  unchanged).  \<open>add_output\<close> on node 2 of \<open>detour_base\<close>, aimed at slot 0 of node 1, which
  node 0 has wired already, raises \<open>SlotAlreadyWired\<close>: the range check and the self-loop
  check come before any write, but \<open>add_successor\<close> has run when \<open>add_dependent\<close> throws, so
  node 1 stays in the successors of node 2, with no entry in the output map of node 2.  The
  caller who goes on building gets a template that \<open>validate\<close> refuses for a cycle its
  output maps do not have; without the refused call the same construction is accepted.
\<close>

theorem failed_add_output_leaves_successor:
  "fst (Mdf_add_output detour_base (Instruction 2 1000) (1, 0)) = Some SlotAlreadyWired
   \<and> successors (nodes (graph detour_base) ! 2) = []
   \<and> output_map (nodes (graph detour_refused) ! 2) = []
   \<and> successors (nodes (graph detour_refused) ! 2) = [1]
   \<and> detour_refused \<noteq> detour_base
   \<and> map_option fst (Mdf_validate (detour_finish detour_base)) = Some None
   \<and> map_option fst (Mdf_validate (detour_finish detour_refused)) = Some (Some CycleDetected)"
proof (intro conjI)
  show "fst (Mdf_add_output detour_base (Instruction 2 1000) (1, 0)) = Some SlotAlreadyWired"
    using detour_refused_eq by simp
  show "successors (nodes (graph detour_base) ! 2) = []"
    by (simp add: detour_base_eq Node_of_type_def)
  show "output_map (nodes (graph detour_refused) ! 2) = []"
    using detour_refused_eq by (simp add: detour_refused_def Node_of_type_def)
  show s: "successors (nodes (graph detour_refused) ! 2) = [1]"
    using detour_refused_eq by (simp add: detour_refused_def Node_of_type_def)
  show "detour_refused \<noteq> detour_base"
    using detour_refused_eq by (simp add: detour_refused_def detour_base_eq Node_of_type_def)
  show "map_option fst (Mdf_validate (detour_finish detour_base)) = Some None"
    by (simp add: detour_finish_base Mdf_validate_def check_graph_def Node_of_type_def)
  show "map_option fst (Mdf_validate (detour_finish detour_refused)) = Some (Some CycleDetected)"
    by (simp add: detour_finish_refused Mdf_validate_def check_graph_def Node_of_type_def)
qed


text \<open>
  Claim C8 (\<open>send_to(producer, consumers...)\<close> hands the producer's outputs to the consumers'
  slots in declaration order, and later calls continue at the cursor).  Node 0 of \<open>fan_nodes\<close>
  has two outputs, nodes 1 and 2 one input each.  The variadic \<open>send_to\<close> sends both outputs
  to node 1, using the cursor \<open>_last_output\<close> as the slot index there: output 0 is wired to
  \<open>(1, 0)\<close>, output 1 is refused at \<open>(1, 1)\<close>, and node 2 is never wired.  A later call for
  node 2 asks for its slot 2.  The overload taking a vector wires \<open>(1, 0)\<close> and \<open>(2, 0)\<close>.
\<close>

theorem send_to_two_consumers:
  "fst (Mdf_send_to_variadic no_mem fan_nodes (Instruction 0 1000) [Instruction 1 1000, Instruction 2 1000])
     = Some SlotOutOfRange
   \<and> output_map (nodes (graph (fst (snd
        (Mdf_send_to_variadic no_mem fan_nodes (Instruction 0 1000) [Instruction 1 1000, Instruction 2 1000])))) ! 0)
     = [(1, 0)]
   \<and> last_output (snd (snd
        (Mdf_send_to_variadic no_mem fan_nodes (Instruction 0 1000) [Instruction 1 1000, Instruction 2 1000])))
     = 2
   \<and> fst (Mdf_send_to no_mem
        (fst (snd (Mdf_send_to no_mem fan_nodes (Instruction 0 1000) (Instruction 1 1000))))
        (snd (snd (Mdf_send_to no_mem fan_nodes (Instruction 0 1000) (Instruction 1 1000))))
        (Instruction 2 1000))
     = Some SlotOutOfRange
   \<and> map_option (\<lambda>r. (fst r, output_map (nodes (graph (snd r)) ! 0)))
        (Mdf_send_to_vector no_mem fan_nodes (Instruction 0 1000) [Instruction 1 1000, Instruction 2 1000])
     = Some (None, [(1, 0), (2, 0)])"
  by (simp add: fan_nodes_def Mdf_send_to_def Mdf_send_to_vector_def builder_defs
      send_to_loop_numeral send_to_inputs_numeral)

section \<open>Token routing\<close>

lemma length_update_node [simp]: "length (nodes (update_node g k f)) = length (nodes g)"
  by (simp add: update_node_def)

lemma nth_update_node:
  "k < length (nodes g) \<Longrightarrow> nodes (update_node g k f) ! j = (if j = k then f (nodes g ! k) else nodes g ! j)"
  by (simp add: update_node_def nth_list_update)

lemma transfer_decrement_Inr:
  "t < length (nodes g) \<Longrightarrow>
   transfer_decrement g t = Inr (update_node g t (\<lambda>nd. nd\<lparr>tokens_count := tokens_count nd - 1\<rparr>))"
  by (simp add: transfer_decrement_def)

lemma transfer_store_Inr:
  "i < length ov \<Longrightarrow> t < length (nodes g) \<Longrightarrow> s < length (input_tokens (nodes g ! t)) \<Longrightarrow>
   transfer_store g t s (Some ov) i
     = Inr (update_node g t (\<lambda>nd. nd\<lparr>input_tokens := (input_tokens nd)[s := ov ! i]\<rparr>))"
  by (simp add: transfer_store_def)

lemma transfer_constant:
  assumes "\<forall>j < length ov. ov ! j = x" "i + length omap \<le> length ov" "slots_ok g omap"
  shows "\<exists>g'. transfer_tokens_from g (Some ov) omap i = Inr g'
     \<and> length (nodes g') = length (nodes g)
     \<and> (\<forall>t < length (nodes g). length (input_tokens (nodes g' ! t)) = length (input_tokens (nodes g ! t)))
     \<and> (\<forall>t s. t < length (nodes g) \<longrightarrow> s < length (input_tokens (nodes g ! t)) \<longrightarrow>
           slot g' t s = (if (t, s) \<in> set omap then x else slot g t s))"
  using assms
proof (induction omap arbitrary: g i)
  case Nil
  then show ?case by simp
next
  case (Cons e rest)
  obtain t0 s0 where e: "e = (t0, s0)" by (cases e)
  from Cons.prems e have t0: "t0 < length (nodes g)" and s0: "s0 < length (input_tokens (nodes g ! t0))"
    and i: "i < length ov" by (auto simp: slots_ok_def)
  define g1 where "g1 = update_node g t0 (\<lambda>nd. nd\<lparr>tokens_count := tokens_count nd - 1\<rparr>)"
  define g2 where "g2 = update_node g1 t0 (\<lambda>nd. nd\<lparr>input_tokens := (input_tokens nd)[s0 := ov ! i]\<rparr>)"
  have len1: "length (nodes g1) = length (nodes g)" by (simp add: g1_def)
  have in1: "\<And>t. t < length (nodes g) \<Longrightarrow> input_tokens (nodes g1 ! t) = input_tokens (nodes g ! t)"
    using t0 by (simp add: g1_def nth_update_node)
  have len2: "length (nodes g2) = length (nodes g)" by (simp add: g2_def len1)
  have in2: "\<And>t. t < length (nodes g) \<Longrightarrow>
      input_tokens (nodes g2 ! t) = (if t = t0 then (input_tokens (nodes g ! t))[s0 := ov ! i] else input_tokens (nodes g ! t))"
    using in1 len1 t0 by (simp add: g2_def nth_update_node)
  have step: "transfer_tokens_from g (Some ov) (e # rest) i = transfer_tokens_from g2 (Some ov) rest (i + 1)"
    using t0 s0 i e in1 len1
    by (simp add: transfer_decrement_Inr transfer_store_Inr g1_def [symmetric] g2_def [symmetric])
  have ok2: "slots_ok g2 rest"
    using Cons.prems(3) in2 len2 by (auto simp: slots_ok_def)
  from Cons.IH [OF Cons.prems(1) _ ok2, of "i + 1"] Cons.prems(2)
  obtain g' where g': "transfer_tokens_from g2 (Some ov) rest (i + 1) = Inr g'"
    "length (nodes g') = length (nodes g2)"
    "\<forall>t < length (nodes g2). length (input_tokens (nodes g' ! t)) = length (input_tokens (nodes g2 ! t))"
    "\<forall>t s. t < length (nodes g2) \<longrightarrow> s < length (input_tokens (nodes g2 ! t)) \<longrightarrow>
           slot g' t s = (if (t, s) \<in> set rest then x else slot g2 t s)"
    by auto
  have xi: "ov ! i = x" using Cons.prems(1) i by simp
  have "\<forall>t s. t < length (nodes g) \<longrightarrow> s < length (input_tokens (nodes g ! t)) \<longrightarrow>
           slot g' t s = (if (t, s) \<in> set (e # rest) then x else slot g t s)"
  proof (intro allI impI)
    fix t s assume t: "t < length (nodes g)" and s: "s < length (input_tokens (nodes g ! t))"
    have s2: "s < length (input_tokens (nodes g2 ! t))" using in2 [OF t] s by auto
    have "slot g' t s = (if (t, s) \<in> set rest then x else slot g2 t s)"
      using g'(4) t s2 len2 by simp
    moreover have "slot g2 t s = (if (t, s) = (t0, s0) then x else slot g t s)"
      using in2 [OF t] s xi by (auto simp: slot_def nth_list_update)
    ultimately show "slot g' t s = (if (t, s) \<in> set (e # rest) then x else slot g t s)"
      using e by auto
  qed
  moreover have "\<forall>t < length (nodes g). length (input_tokens (nodes g' ! t)) = length (input_tokens (nodes g ! t))"
    using g'(3) in2 len2 by simp
  ultimately show ?case using step g'(1,2) len2 by simp
qed

lemma chain_instance_eq:
  "chain_instance = \<lparr> nodes =
       [(Node_of_type 0 SPLIT 1)\<lparr>successors := [1], output_map := [(1, 0)], input_tokens := [Some (TokenSlot 7)]\<rparr>,
        (Node_of_type 1 MERGE 2)\<lparr>successors := [2], output_map := [(2, 0)],
           dependents := (Bitmask 2)\<lparr>bm_array := [1]\<rparr>, input_tokens := [None, None]\<rparr>,
        (Node_of_type 2 MERGE 1)\<lparr>dependents := (Bitmask 1)\<lparr>bm_array := [1]\<rparr>, is_output := True,
           input_tokens := [None]\<rparr>],
       output_node = 2, input_node = 0, counter = 3 \<rparr>"
  by (simp add: chain_instance_def chain_validated_eq chain_marked_eq send_input_tokens_def Graph_copy_def
      Node_copy_def update_node_def Node_of_type_def replicate_two)

text \<open>
  Claim C9.  A \<open>SPLIT\<close> node whose output map is complete and names existing slots: firing
  it returns \<open>output_size\<close> copies of the token in its input slot 0, routing them succeeds,
  and afterwards every slot named by the output map holds that token.
\<close>

theorem split_delivers_its_input:
  assumes "k < length (nodes g)"
    and "n_type (nodes g ! k) = SPLIT"
    and "input_tokens (nodes g ! k) \<noteq> []"
    and "length (output_map (nodes g ! k)) = output_size (nodes g ! k)"
    and "slots_ok g (output_map (nodes g ! k))"
  shows "\<exists>g'. Node_execute (nodes g ! k)
           = Inr (Some (replicate (output_size (nodes g ! k)) (input_tokens (nodes g ! k) ! 0)))
       \<and> Graph_transfer_tokens g
             (Some (replicate (output_size (nodes g ! k)) (input_tokens (nodes g ! k) ! 0)))
             (output_map (nodes g ! k)) = Inr g'
       \<and> (\<forall>e \<in> set (output_map (nodes g ! k)). slot g' (fst e) (snd e) = input_tokens (nodes g ! k) ! 0)"
proof -
  let ?x = "input_tokens (nodes g ! k) ! 0"
  let ?ov = "replicate (output_size (nodes g ! k)) ?x"
  have ex: "Node_execute (nodes g ! k) = Inr (Some ?ov)"
    using assms(2,3) by (simp add: Node_execute_def)
  have "\<forall>j < length ?ov. ?ov ! j = ?x" by simp
  moreover have "0 + length (output_map (nodes g ! k)) \<le> length ?ov" using assms(4) by simp
  ultimately obtain g' where g': "transfer_tokens_from g (Some ?ov) (output_map (nodes g ! k)) 0 = Inr g'"
    and sl: "\<forall>t s. t < length (nodes g) \<longrightarrow> s < length (input_tokens (nodes g ! t)) \<longrightarrow>
           slot g' t s = (if (t, s) \<in> set (output_map (nodes g ! k)) then ?x else slot g t s)"
    using transfer_constant [OF _ _ assms(5), of ?ov ?x 0] by blast
  have "\<forall>e \<in> set (output_map (nodes g ! k)). slot g' (fst e) (snd e) = ?x"
  proof
    fix e assume e: "e \<in> set (output_map (nodes g ! k))"
    then have "fst e < length (nodes g)" "snd e < length (input_tokens (nodes g ! fst e))"
      using assms(5) by (auto simp: slots_ok_def)
    with sl e show "slot g' (fst e) (snd e) = ?x" by simp
  qed
  with ex g' show ?thesis by (auto simp: Graph_transfer_tokens_def)
qed

theorem split_delivers_its_input_witness:
  "0 < length (nodes chain_instance)
   \<and> n_type (nodes chain_instance ! 0) = SPLIT
   \<and> input_tokens (nodes chain_instance ! 0) \<noteq> []
   \<and> length (output_map (nodes chain_instance ! 0)) = output_size (nodes chain_instance ! 0)
   \<and> slots_ok chain_instance (output_map (nodes chain_instance ! 0))
   \<and> Node_execute (nodes chain_instance ! 0) = Inr (Some [Some (TokenSlot 7)])
   \<and> (\<exists>g'. Graph_transfer_tokens chain_instance (Some [Some (TokenSlot 7)]) [(1, 0)] = Inr g'
          \<and> slot g' 1 0 = Some (TokenSlot 7))"
proof -
  have h: "0 < length (nodes chain_instance)" "n_type (nodes chain_instance ! 0) = SPLIT"
    "input_tokens (nodes chain_instance ! 0) \<noteq> []"
    "length (output_map (nodes chain_instance ! 0)) = output_size (nodes chain_instance ! 0)"
    "slots_ok chain_instance (output_map (nodes chain_instance ! 0))"
    by (simp_all add: chain_instance_eq Node_of_type_def slots_ok_def)
  from split_delivers_its_input [OF h] h show ?thesis
    by (simp add: chain_instance_eq Node_of_type_def)
qed

section \<open>Submitting a run\<close>

lemma check_graph_nodes:
  "check_graph g = Some (r, g') \<Longrightarrow>
     nodes g' = nodes g \<and> input_node g' = input_node g \<and> output_node g' = output_node g"
  by (auto simp: check_graph_def Let_def split: if_splits option.splits prod.splits)

lemma Mdf_validate_graph:
  "Mdf_validate m = Some (r, m1) \<Longrightarrow>
     nodes (graph m1) = nodes (graph m) \<and> input_node (graph m1) = input_node (graph m)
     \<and> output_node (graph m1) = output_node (graph m) \<and> graph_id m1 = graph_id m"
  by (auto simp: Mdf_validate_def split: if_splits option.splits prod.splits dest!: check_graph_nodes)

lemma chain_send_input_tokens:
  "send_input_tokens (Graph_copy (graph chain_validated)) [7] = Inr chain_instance"
  by (simp add: chain_instance_eq)
     (simp add: chain_validated_eq chain_marked_eq send_input_tokens_def Graph_copy_def
      Node_copy_def update_node_def Node_of_type_def replicate_two)

lemma chain_run:
  "Executor_run (Executor 1) chain_marked [7] (\<lambda>k. False)
     = Some (None, chain_validated, chain_submitted, [Enqueued (0, 0)])"
proof -
  have "Mdf_validate chain_marked = Some (None, chain_validated)"
    by (simp add: chain_validate chain_validated_eq)
  moreover have "input_node chain_instance = 0"
    by (simp add: chain_instance_eq)
  ultimately show ?thesis
    by (simp add: Executor_run_def chain_send_input_tokens chain_submitted_def Executor_def Let_def)
qed




section \<open>Order of the decrement and the store\<close>

lemma join_marked_eq:
  "join_marked = \<lparr> graph = \<lparr> nodes =
       [(Node_of_type 0 SPLIT 2)\<lparr>successors := [1, 2], output_map := [(1, 0), (2, 0)]\<rparr>,
        (Node_of_type 1 MERGE 1)\<lparr>successors := [3], output_map := [(3, 0)],
           dependents := (Bitmask 1)\<lparr>bm_array := [1]\<rparr>\<rparr>,
        (Node_of_type 2 MERGE 1)\<lparr>successors := [3], output_map := [(3, 1)],
           dependents := (Bitmask 1)\<lparr>bm_array := [1]\<rparr>\<rparr>,
        (Node_of_type 3 MERGE 2)\<lparr>dependents := (Bitmask 2)\<lparr>bm_array := [3]\<rparr>, is_output := True\<rparr>],
       output_node = 3, input_node = 0, counter = 0 \<rparr>, graph_id = 1000, valid = False \<rparr>"
  by (simp add: join_marked_def join_wired_def join_nodes_def builder_defs)

lemma join_validate:
  "Mdf_validate join_marked = Some (None, join_marked\<lparr>graph := (graph join_marked)\<lparr>counter := 4\<rparr>, valid := True\<rparr>)"
  by (simp add: join_marked_eq Mdf_validate_def check_graph_def Node_of_type_def)

lemmas exec_defs = step_def worker_step_def flag_def set_worker_def set_graph_def next_successor_def next_transfer_def
  transfer_decrement_def transfer_store_def Node_execute_def update_node_def Let_def

lemma join_run:
  "Executor_run (Executor 2) join_marked [7] (\<lambda>k. False) = Some (None, join_marked\<lparr>graph := (graph join_marked)\<lparr>counter := 4\<rparr>, valid := True\<rparr>,
     \<lparr> workers = [Waiting, Waiting], job_queue = [(0, 0)], graph_pool = [0], stop = False,
       handlers = [\<lparr> promise = None, h_graph = \<lparr> nodes =
       [(Node_of_type 0 SPLIT 2)\<lparr>successors := [1, 2], output_map := [(1, 0), (2, 0)], input_tokens := [Some (TokenSlot 7)]\<rparr>,
        (Node_of_type 1 MERGE 1)\<lparr>successors := [3], output_map := [(3, 0)],
           dependents := (Bitmask 1)\<lparr>bm_array := [1]\<rparr>, input_tokens := [None]\<rparr>,
        (Node_of_type 2 MERGE 1)\<lparr>successors := [3], output_map := [(3, 1)],
           dependents := (Bitmask 1)\<lparr>bm_array := [1]\<rparr>, input_tokens := [None]\<rparr>,
        (Node_of_type 3 MERGE 2)\<lparr>dependents := (Bitmask 2)\<lparr>bm_array := [3]\<rparr>, is_output := True, input_tokens := [None, None]\<rparr>],
       output_node = 3, input_node = 0, counter = 4 \<rparr>, deleted = False, flag_memory = (\<lambda>k. False) \<rparr>] \<rparr>, [Enqueued (0, 0)])"
  by (simp add: Executor_run_def join_validate)
     (simp add: join_marked_eq send_input_tokens_def Graph_copy_def Node_copy_def update_node_def
        Node_of_type_def replicate_two Executor_def Let_def)

text \<open>
  Claim C4 (in \<open>transfer_tokens\<close> the token is stored in the slot before the counter of the
  target is decremented, so a node whose counter is zero has all its slots written).  The
  source decrements first.  In the schedule \<open>join_schedule\<close> worker 0 has decremented the
  counter of node 3 for slot 0 and not yet stored the token when worker 1 decrements it to
  zero, stores slot 1, enqueues node 3 and fires it: the result of the run is the merge of an
  empty slot 0 and the token of slot 1.  The trace has no store to slot 0 of node 3 before
  node 3 fires.
\<close>

theorem join_fires_with_empty_slot:
  "map_option (\<lambda>r. (promise (handlers (fst r) ! 0), snd r)) (execute join_schedule (Executor 2))
     = Some (Some (Some [Some (TokenVector [None, Some (TokenVector [Some (TokenSlot 7)])])]),
        [Enqueued (0, 0), Fired (0, 0), Decremented 0 1, Stored 0 1 0, Decremented 0 2, Stored 0 2 0,
         Claimed (0, 1), Enqueued (0, 1), Claimed (0, 2), Enqueued (0, 2),
         Fired (0, 1), Decremented 0 3, Fired (0, 2), Decremented 0 3, Stored 0 3 1,
         Claimed (0, 3), Enqueued (0, 3), Fired (0, 3)])"
  apply (simp add: join_schedule_def step_def join_run)
  apply (simp add: exec_defs Node_of_type_def)
  done

section \<open>Validation: the traversal returns, and accepts only sealed graphs\<close>

lemma check_successors_Cons_ok:
  "check_successors fuel g (adj # rest) (vis, stk, c) = Some (None, st') \<Longrightarrow>
     adj < length vis \<and> adj < length stk
     \<and> (if vis ! adj then \<not> stk ! adj \<and> check_successors fuel g rest (vis, stk, c) = Some (None, st')
         else \<exists>st1. check_node fuel g adj (vis, stk, c) = Some (None, st1)
                  \<and> check_successors fuel g rest st1 = Some (None, st'))"
  apply (simp split: if_splits)
  apply (cases "check_node fuel g adj (vis, stk, c)")
   apply simp
  subgoal for a
    apply (cases a)
    subgoal for e st1
      apply (cases e)
       apply simp_all
      done
    done
  done

lemma check_node_ok_bounds:
  "check_node fuel g i (vis, stk, c) = Some (None, st') \<Longrightarrow> i < length vis \<and> i < length stk"
  by (cases fuel) (auto split: if_splits)

lemma check_node_Suc_ok:
  "check_node (Suc fuel) g i (vis, stk, c) = Some (None, st') \<Longrightarrow> \<not> vis ! i \<Longrightarrow>
     i < length (nodes g)
     \<and> (int i \<noteq> output_node g \<longrightarrow> length (output_map (nodes g ! i)) = output_size (nodes g ! i))
     \<and> (\<exists>vis2 stk2 c2.
           check_successors fuel g (successors (nodes g ! i)) (vis[i := True], stk[i := True], c + 1)
             = Some (None, (vis2, stk2, c2))
           \<and> st' = (vis2, stk2[i := False], c2))"
  apply (simp add: Let_def split: if_splits)
  apply (cases "check_successors fuel g (successors (nodes g ! i)) (vis[i := True], stk[i := True], Suc c)")
   apply simp
  subgoal for a
    apply (cases a)
    subgoal for e st2
      apply (cases e)
       apply (cases st2)
       apply auto
      done
    done
  done

lemma check_node_visited:
  "vis ! i \<Longrightarrow> i < length vis \<Longrightarrow> i < length stk \<Longrightarrow>
   check_node (Suc fuel) g i (vis, stk, c) = Some (None, (vis, stk[i := False], c))"
  by simp

lemma check_node_Suc_returns:
  "check_successors fuel g (successors (nodes g ! i)) (vis[i := True], stk[i := True], c + 1) \<noteq> None \<Longrightarrow>
   check_node (Suc fuel) g i (vis, stk, c) \<noteq> None"
  by (auto simp: Let_def split: option.splits)

lemma check_successors_Cons_returns:
  "(\<not> vis ! adj \<Longrightarrow> check_node fuel g adj (vis, stk, c) \<noteq> None) \<Longrightarrow>
   (\<And>st1. \<not> vis ! adj \<Longrightarrow> check_node fuel g adj (vis, stk, c) = Some (None, st1) \<Longrightarrow>
      check_successors fuel g rest st1 \<noteq> None) \<Longrightarrow>
   (vis ! adj \<Longrightarrow> check_successors fuel g rest (vis, stk, c) \<noteq> None) \<Longrightarrow>
   check_successors fuel g (adj # rest) (vis, stk, c) \<noteq> None"
  by (auto split: option.splits)

declare check_node.simps [simp del] check_successors.simps [simp del]

lemma dfs_inv_len: "dfs_inv g r vis stk \<Longrightarrow> length stk = length vis"
  unfolding dfs_inv_def by blast

lemma dfs_inv_stack: "dfs_inv g r vis stk \<Longrightarrow> n < length vis \<Longrightarrow> stk ! n \<Longrightarrow> vis ! n"
  unfolding dfs_inv_def by blast

lemma dfs_inv_black:
  "dfs_inv g r vis stk \<Longrightarrow> n < length vis \<Longrightarrow> vis ! n \<Longrightarrow> \<not> stk ! n \<Longrightarrow>
     n < length (nodes g) \<and> r \<notin> set (successors (nodes g ! n))
     \<and> finished vis stk (successors (nodes g ! n))"
  unfolding dfs_inv_def finished_def by blast

lemma dfs_invI:
  "length stk = length vis \<Longrightarrow> (\<And>n. n < length vis \<Longrightarrow> stk ! n \<Longrightarrow> vis ! n) \<Longrightarrow>
   (\<And>n. n < length vis \<Longrightarrow> vis ! n \<Longrightarrow> \<not> stk ! n \<Longrightarrow>
      n < length (nodes g) \<and> r \<notin> set (successors (nodes g ! n))
     \<and> finished vis stk (successors (nodes g ! n))) \<Longrightarrow>
   dfs_inv g r vis stk"
  unfolding dfs_inv_def finished_def by blast

lemma growsD: "grows vis vis' \<Longrightarrow> n < length vis \<Longrightarrow> vis ! n \<Longrightarrow> vis' ! n"
  unfolding grows_def by blast

lemma grows_len: "grows vis vis' \<Longrightarrow> length vis' = length vis"
  unfolding grows_def by blast

lemma grows_refl [simp]: "grows vis vis"
  unfolding grows_def by blast

lemma grows_trans: "grows a b \<Longrightarrow> grows b c \<Longrightarrow> grows a c"
  unfolding grows_def by auto

lemma grows_update: "grows vis (vis[i := True])"
proof -
  have "vis[i := True] ! n" if "n < length vis" "vis ! n" for n
    using that by (cases "n = i") simp_all
  then show ?thesis unfolding grows_def by simp
qed

lemma finishedD: "finished vis stk adjs \<Longrightarrow> a \<in> set adjs \<Longrightarrow> a < length vis \<and> vis ! a \<and> \<not> stk ! a"
  unfolding finished_def by blast

lemma finished_Nil [simp]: "finished vis stk []"
  unfolding finished_def by simp

lemma finished_Cons:
  "a < length vis \<Longrightarrow> vis ! a \<Longrightarrow> \<not> stk ! a \<Longrightarrow> finished vis stk adjs \<Longrightarrow> finished vis stk (a # adjs)"
  unfolding finished_def by simp

lemma finished_grows: "finished vis stk adjs \<Longrightarrow> grows vis vis' \<Longrightarrow> finished vis' stk adjs"
  unfolding finished_def grows_def by auto

lemma unvisited_grows: "grows vis vis' \<Longrightarrow> unvisited vis' \<le> unvisited vis"
proof -
  assume g: "grows vis vis'"
  have "{n. n < length vis' \<and> \<not> vis' ! n} \<subseteq> {n. n < length vis \<and> \<not> vis ! n}"
    using growsD [OF g] grows_len [OF g] by auto
  moreover have "finite {n. n < length vis \<and> \<not> vis ! n}" by simp
  ultimately show ?thesis unfolding unvisited_def by (rule card_mono [rotated])
qed

lemma unvisited_update:
  assumes "i < length vis" "\<not> vis ! i"
  shows "unvisited (vis[i := True]) < unvisited vis"
proof -
  have "{n. n < length (vis[i := True]) \<and> \<not> vis[i := True] ! n} \<subset> {n. n < length vis \<and> \<not> vis ! n}"
    using assms by (auto simp: nth_list_update)
  moreover have "finite {n. n < length vis \<and> \<not> vis ! n}" by simp
  ultimately show ?thesis unfolding unvisited_def by (rule psubset_card_mono [rotated])
qed

lemma fuel_nodeD:
  "fuel_node g f \<Longrightarrow> length stk = length vis \<Longrightarrow> unvisited vis < f \<Longrightarrow>
     check_node f g i (vis, stk, c) \<noteq> None
     \<and> (check_node f g i (vis, stk, c) = Some (None, (vis', stk', c')) \<longrightarrow>
          grows vis vis' \<and> length stk' = length vis')"
  unfolding fuel_node_def by blast

lemma fuel_succD:
  "fuel_succ g f adjs \<Longrightarrow> length stk = length vis \<Longrightarrow> unvisited vis < f \<Longrightarrow>
     check_successors f g adjs (vis, stk, c) \<noteq> None
     \<and> (check_successors f g adjs (vis, stk, c) = Some (None, (vis', stk', c')) \<longrightarrow>
          grows vis vis' \<and> length stk' = length vis')"
  unfolding fuel_succ_def by blast

lemma fuel_succ_from_node:
  assumes n: "fuel_node g f"
  shows "fuel_succ g f adjs"
proof (induction adjs)
  case Nil
  show ?case unfolding fuel_succ_def by (simp add: check_successors.simps)
next
  case (Cons adj rest)
  show ?case
    unfolding fuel_succ_def
  proof (intro allI impI conjI)
    fix vis stk :: "bool list" and c :: nat
    assume len: "length stk = length vis" and u: "unvisited vis < f"
    have after: "check_successors f g rest st1 \<noteq> None"
      if "check_node f g adj (vis, stk, c) = Some (None, st1)" for st1
    proof -
      obtain vis1 stk1 c1 where st1: "st1 = (vis1, stk1, c1)" by (cases st1)
      from fuel_nodeD [OF n len u, of adj c vis1 stk1 c1] that st1
      have g1: "grows vis vis1" and l1: "length stk1 = length vis1" by simp_all
      from unvisited_grows [OF g1] u have "unvisited vis1 < f" by simp
      from fuel_succD [OF Cons.IH l1 this] st1 show ?thesis by simp
    qed
    show "check_successors f g (adj # rest) (vis, stk, c) \<noteq> None"
    proof (rule check_successors_Cons_returns)
      show "check_node f g adj (vis, stk, c) \<noteq> None"
        using fuel_nodeD [OF n len u] by simp
      show "\<And>st1. check_node f g adj (vis, stk, c) = Some (None, st1) \<Longrightarrow> check_successors f g rest st1 \<noteq> None"
        by (rule after)
      show "check_successors f g rest (vis, stk, c) \<noteq> None"
        using fuel_succD [OF Cons.IH len u] by simp
    qed
  next
    fix vis stk vis' stk' :: "bool list" and c c' :: nat
    assume len: "length stk = length vis" and u: "unvisited vis < f"
      and run: "check_successors f g (adj # rest) (vis, stk, c) = Some (None, (vis', stk', c'))"
    note ok = check_successors_Cons_ok [OF run]
    show "grows vis vis'"  "length stk' = length vis'"
    proof -
      have "grows vis vis' \<and> length stk' = length vis'"
      proof (cases "vis ! adj")
        case True
        with ok have "check_successors f g rest (vis, stk, c) = Some (None, (vis', stk', c'))" by simp
        with fuel_succD [OF Cons.IH len u, of c vis' stk' c'] show ?thesis by simp
      next
        case False
        with ok obtain st1 where n1: "check_node f g adj (vis, stk, c) = Some (None, st1)"
          and r1: "check_successors f g rest st1 = Some (None, (vis', stk', c'))" by auto
        obtain vis1 stk1 c1 where st1: "st1 = (vis1, stk1, c1)" by (cases st1)
        from fuel_nodeD [OF n len u, of adj c vis1 stk1 c1] n1 st1
        have g1: "grows vis vis1" and l1: "length stk1 = length vis1" by simp_all
        from unvisited_grows [OF g1] u have u1: "unvisited vis1 < f" by simp
        from fuel_succD [OF Cons.IH l1 u1, of c1 vis' stk' c'] r1 st1
        have "grows vis1 vis'" "length stk' = length vis'" by simp_all
        with grows_trans [OF g1] show ?thesis by simp
      qed
      then show "grows vis vis'"  "length stk' = length vis'" by simp_all
    qed
  qed
qed

lemma fuel_node_all: "fuel_node g f"
proof (induction f)
  case 0
  show ?case unfolding fuel_node_def by simp
next
  case (Suc f)
  note s = fuel_succ_from_node [OF Suc.IH]
  show ?case
    unfolding fuel_node_def
  proof (intro allI impI)
    fix i and vis stk :: "bool list" and c :: nat
    assume len: "length stk = length vis" and u: "unvisited vis < Suc f"
    show "check_node (Suc f) g i (vis, stk, c) \<noteq> None
        \<and> (\<forall>vis' stk' c'. check_node (Suc f) g i (vis, stk, c) = Some (None, (vis', stk', c')) \<longrightarrow>
              grows vis vis' \<and> length stk' = length vis')"
    proof (cases "i < length vis")
      case False
      then show ?thesis by (simp add: check_node.simps)
    next
      case i: True
      show ?thesis
      proof (cases "vis ! i")
        case True
        from check_node_visited [OF True i, of stk f g c] i len show ?thesis by simp
      next
        case False
        let ?vis1 = "vis[i := True]" and ?stk1 = "stk[i := True]"
        have l1: "length ?stk1 = length ?vis1" using len by simp
        from unvisited_update [OF i False] u have u1: "unvisited ?vis1 < f" by simp
        note d = fuel_succD [OF s l1 u1, of "successors (nodes g ! i)" "c + 1"]
        have nn: "check_node (Suc f) g i (vis, stk, c) \<noteq> None"
          by (rule check_node_Suc_returns) (use d in simp)
        have "grows vis vis' \<and> length stk' = length vis'"
          if run: "check_node (Suc f) g i (vis, stk, c) = Some (None, (vis', stk', c'))" for vis' stk' c'
        proof -
          from check_node_Suc_ok [OF run False] obtain vis2 stk2 c2 where
            r2: "check_successors f g (successors (nodes g ! i)) (?vis1, ?stk1, c + 1) = Some (None, (vis2, stk2, c2))"
            and st: "(vis', stk', c') = (vis2, stk2[i := False], c2)" by blast
          from d [of vis2 stk2 c2] r2 have "grows ?vis1 vis2" "length stk2 = length vis2" by simp_all
          with grows_trans [OF grows_update] st show ?thesis by simp
        qed
        with nn show ?thesis by blast
      qed
    qed
  qed
qed

lemma unvisited_replicate: "unvisited (replicate n False) = n"
proof -
  have "{k. k < length (replicate n False) \<and> \<not> replicate n False ! k} = {..<n}" by auto
  then show ?thesis by (simp add: unvisited_def)
qed

lemma check_graph_returns: "check_graph g \<noteq> None"
proof -
  let ?n = "length (nodes g)"
  have "check_node (Suc ?n) g (nat (input_node g)) (replicate ?n False, replicate ?n False, counter g) \<noteq> None"
    using fuel_nodeD [OF fuel_node_all, of "replicate ?n False" "replicate ?n False" "Suc ?n" g]
    by (simp add: unvisited_replicate)
  then show ?thesis
    by (auto simp: check_graph_def Let_def split: option.splits prod.splits)
qed

lemma Mdf_validate_returns: "Mdf_validate m \<noteq> None"
  using check_graph_returns [of "graph m"]
  by (auto simp: Mdf_validate_def split: option.splits prod.splits)

lemma node_postD:
  "node_post g r fuel \<Longrightarrow> check_node fuel g i (vis, stk, c) = Some (None, st') \<Longrightarrow>
   dfs_inv g r vis stk \<Longrightarrow> \<not> vis ! i \<Longrightarrow> i = r \<or> (r < length vis \<and> stk ! r) \<Longrightarrow>
   \<exists>vis' c'. st' = (vis', stk, c') \<and> dfs_inv g r vis' stk \<and> vis' ! i \<and> grows vis vis'"
  unfolding node_post_def by blast

lemma succ_postD:
  "succ_post g r fuel adjs \<Longrightarrow> check_successors fuel g adjs (vis, stk, c) = Some (None, st') \<Longrightarrow>
   dfs_inv g r vis stk \<Longrightarrow> r < length vis \<Longrightarrow> stk ! r \<Longrightarrow>
   \<exists>vis' c'. st' = (vis', stk, c') \<and> dfs_inv g r vis' stk \<and> grows vis vis' \<and> finished vis' stk adjs"
  unfolding succ_post_def by blast

lemma succ_post_from_node:
  assumes np: "node_post g r fuel"
  shows "succ_post g r fuel adjs"
proof (induction adjs)
  case Nil
  show ?case unfolding succ_post_def by (simp add: check_successors.simps)
next
  case (Cons adj rest)
  show ?case
    unfolding succ_post_def
  proof (intro allI impI)
    fix vis stk :: "bool list" and c :: nat and st'
    assume run: "check_successors fuel g (adj # rest) (vis, stk, c) = Some (None, st')"
      and inv: "dfs_inv g r vis stk" and r: "r < length vis" "stk ! r"
    note ok = check_successors_Cons_ok [OF run]
    from ok have adj: "adj < length vis" by simp
    show "\<exists>vis' c'. st' = (vis', stk, c') \<and> dfs_inv g r vis' stk \<and> grows vis vis'
           \<and> finished vis' stk (adj # rest)"
    proof (cases "vis ! adj")
      case True
      with ok have ns: "\<not> stk ! adj" and rest: "check_successors fuel g rest (vis, stk, c) = Some (None, st')"
        by simp_all
      from succ_postD [OF Cons.IH rest inv r]
      obtain vis' c' where p: "st' = (vis', stk, c')" "dfs_inv g r vis' stk" "grows vis vis'"
        "finished vis' stk rest"
        by blast
      have "finished vis' stk (adj # rest)"
        using growsD [OF p(3) adj True] grows_len [OF p(3)] adj ns p(4) by (intro finished_Cons) simp_all
      with p(1,2,3) show ?thesis by blast
    next
      case False
      with ok obtain st1 where n1: "check_node fuel g adj (vis, stk, c) = Some (None, st1)"
        and rest: "check_successors fuel g rest st1 = Some (None, st')"
        by auto
      from r have "adj = r \<or> (r < length vis \<and> stk ! r)" by simp
      from node_postD [OF np n1 inv False this]
      obtain vis1 c1 where p1: "st1 = (vis1, stk, c1)" "dfs_inv g r vis1 stk" "vis1 ! adj" "grows vis vis1"
        by blast
      from r grows_len [OF p1(4)] have r1: "r < length vis1" by simp
      from succ_postD [OF Cons.IH rest [unfolded p1(1)] p1(2) r1 r(2)]
      obtain vis' c' where p: "st' = (vis', stk, c')" "dfs_inv g r vis' stk" "grows vis1 vis'"
        "finished vis' stk rest"
        by blast
      have ns: "\<not> stk ! adj" using dfs_inv_stack [OF inv adj] False by blast
      have a1: "adj < length vis1" using adj grows_len [OF p1(4)] by simp
      have "finished vis' stk (adj # rest)"
        using growsD [OF p(3) a1 p1(3)] grows_len [OF p(3)] a1 ns p(4) by (intro finished_Cons) simp_all
      with p(1,2) grows_trans [OF p1(4) p(3)] show ?thesis by blast
    qed
  qed
qed

lemma list_update_restore: "\<not> xs ! i \<Longrightarrow> xs[i := True, i := False] = xs"
  using list_update_id [of xs i] by simp

lemma node_post_all: "node_post g r fuel"
proof (induction fuel)
  case 0
  show ?case unfolding node_post_def by (simp add: check_node.simps)
next
  case (Suc fuel)
  note sp = succ_post_from_node [OF Suc.IH]
  show ?case
    unfolding node_post_def
  proof (intro allI impI)
    fix i and vis stk :: "bool list" and c :: nat and st'
    assume run: "check_node (Suc fuel) g i (vis, stk, c) = Some (None, st')"
      and inv: "dfs_inv g r vis stk" and nv: "\<not> vis ! i"
      and rr: "i = r \<or> (r < length vis \<and> stk ! r)"
    from check_node_ok_bounds [OF run] have i: "i < length vis" by simp
    note len = dfs_inv_len [OF inv]
    have nsi: "\<not> stk ! i" using dfs_inv_stack [OF inv i] nv by blast
    let ?vis1 = "vis[i := True]" and ?stk1 = "stk[i := True]"
    from check_node_Suc_ok [OF run nv] obtain vis2 stk2 c2 where
      ig: "i < length (nodes g)"
      and r2: "check_successors fuel g (successors (nodes g ! i)) (?vis1, ?stk1, c + 1) = Some (None, (vis2, stk2, c2))"
      and st: "st' = (vis2, stk2[i := False], c2)" by blast
    have s1i: "?stk1 ! i" "?vis1 ! i" using i len by simp_all
    have s1r: "r < length ?vis1 \<and> ?stk1 ! r"
    proof (cases "i = r")
      case True
      with i len show ?thesis by simp
    next
      case False
      with rr i len show ?thesis by simp
    qed
    have inv1: "dfs_inv g r ?vis1 ?stk1"
    proof (rule dfs_invI)
      show "length ?stk1 = length ?vis1" using len by simp
    next
      fix n assume n: "n < length ?vis1" and sn: "?stk1 ! n"
      show "?vis1 ! n"
      proof (cases "n = i")
        case True
        with i show ?thesis by simp
      next
        case False
        with n sn have "stk ! n" "n < length vis" by simp_all
        with dfs_inv_stack [OF inv] False show ?thesis by simp
      qed
    next
      fix n assume n: "n < length ?vis1" and vn: "?vis1 ! n" and nsn: "\<not> ?stk1 ! n"
      from nsn s1i have ni: "n \<noteq> i" by blast
      with n vn nsn have b: "n < length vis" "vis ! n" "\<not> stk ! n" by simp_all
      note bl = dfs_inv_black [OF inv b]
      have "finished ?vis1 ?stk1 (successors (nodes g ! n))"
        unfolding finished_def
      proof
        fix a assume a: "a \<in> set (successors (nodes g ! n))"
        from finishedD [OF _ a] bl have fa: "a < length vis" "vis ! a" "\<not> stk ! a" by blast+
        with nv have "a \<noteq> i" by blast
        with fa show "a < length ?vis1 \<and> ?vis1 ! a \<and> \<not> ?stk1 ! a" by simp
      qed
      with bl show "n < length (nodes g) \<and> r \<notin> set (successors (nodes g ! n))
         \<and> finished ?vis1 ?stk1 (successors (nodes g ! n))" by blast
    qed
    from succ_postD [OF sp r2 inv1] s1r
    obtain vis' c' where p: "(vis2, stk2, c2) = (vis', ?stk1, c')" "dfs_inv g r vis' ?stk1" "grows ?vis1 vis'"
      "finished vis' ?stk1 (successors (nodes g ! i))"
      by blast
    from p(1) have e: "vis2 = vis'" "stk2 = ?stk1" "c2 = c'" by simp_all
    have st2: "st' = (vis', stk, c')"
      using st e list_update_restore [OF nsi] by simp
    have g: "grows vis vis'" by (rule grows_trans [OF grows_update p(3)])
    have lv: "length vis' = length vis" using grows_len [OF g] .
    have vi: "vis' ! i" using growsD [OF p(3)] s1i i by simp
    have inv': "dfs_inv g r vis' stk"
    proof (rule dfs_invI)
      show "length stk = length vis'" using len lv by simp
    next
      fix n assume n: "n < length vis'" and sn: "stk ! n"
      with lv dfs_inv_stack [OF inv] have "vis ! n" by simp
      with growsD [OF g] n lv show "vis' ! n" by simp
    next
      fix n assume n: "n < length vis'" and vn: "vis' ! n" and nsn: "\<not> stk ! n"
      show "n < length (nodes g) \<and> r \<notin> set (successors (nodes g ! n))
         \<and> finished vis' stk (successors (nodes g ! n))"
      proof (cases "n = i")
        case True
        have f: "finished vis' stk (successors (nodes g ! i))"
          unfolding finished_def
        proof
          fix a assume a: "a \<in> set (successors (nodes g ! i))"
          from finishedD [OF p(4) a] have fa: "a < length vis'" "vis' ! a" "\<not> ?stk1 ! a" by blast+
          from fa(3) s1i have "a \<noteq> i" by blast
          with fa(3) have "\<not> stk ! a" by simp
          with fa show "a < length vis' \<and> vis' ! a \<and> \<not> stk ! a" by blast
        qed
        have "r \<notin> set (successors (nodes g ! i))"
        proof
          assume "r \<in> set (successors (nodes g ! i))"
          from finishedD [OF p(4) this] s1r show False by blast
        qed
        with f ig True show ?thesis by blast
      next
        case False
        with nsn have ns1: "\<not> ?stk1 ! n" by simp
        note bl = dfs_inv_black [OF p(2) n vn ns1]
        have "finished vis' stk (successors (nodes g ! n))"
          unfolding finished_def
        proof
          fix a assume a: "a \<in> set (successors (nodes g ! n))"
          from finishedD [OF _ a] bl have fa: "a < length vis'" "vis' ! a" "\<not> ?stk1 ! a" by blast+
          from fa(3) s1i have "a \<noteq> i" by blast
          with fa(3) have "\<not> stk ! a" by simp
          with fa show "a < length vis' \<and> vis' ! a \<and> \<not> stk ! a" by blast
        qed
        with bl show ?thesis by blast
      qed
    qed
    from st2 inv' vi g show "\<exists>vis' c'. st' = (vis', stk, c') \<and> dfs_inv g r vis' stk \<and> vis' ! i \<and> grows vis vis'"
      by blast
  qed
qed

lemma check_graph_sealed:
  assumes "check_graph g = Some (None, g')"
  shows "sealed g"
proof -
  let ?n = "length (nodes g)" and ?r = "nat (input_node g)"
  let ?z = "replicate ?n False"
  from assms obtain st where run: "check_node (Suc ?n) g ?r (?z, ?z, counter g) = Some (None, st)"
    by (auto simp: check_graph_def Let_def split: if_splits option.splits prod.splits)
  from check_node_ok_bounds [OF run] have r: "?r < ?n" by simp
  have inv0: "dfs_inv g ?r ?z ?z"
    by (rule dfs_invI) simp_all
  have nv: "\<not> ?z ! ?r" using r by simp
  from node_postD [OF node_post_all run inv0 nv]
  obtain vis c where p: "dfs_inv g ?r vis ?z" "vis ! ?r" "grows ?z vis" by blast
  have lv: "length vis = ?n" using grows_len [OF p(3)] by simp
  have "n < ?n \<and> vis ! n" if "n \<in> reach g" for n
    using that
  proof (induction rule: reach.induct)
    case root
    with r p(2) show ?case by simp
  next
    case (edge m s)
    then have m: "m < length vis" "vis ! m" "\<not> ?z ! m" using lv by simp_all
    from dfs_inv_black [OF p(1) m] have f: "finished vis ?z (successors (nodes g ! m))" by blast
    from finishedD [OF f edge.hyps(3)] lv show ?case by simp
  qed
  then have "n < ?n \<and> ?r \<notin> set (successors (nodes g ! n))" if "n \<in> reach g" for n
    using dfs_inv_black [OF p(1), of n] lv that by simp
  then show ?thesis unfolding sealed_def by blast
qed
section \<open>Every node is executed at most once\<close>

lemma successors_update_node:
  "(\<And>nd. successors (f nd) = successors nd) \<Longrightarrow>
   successors (nodes (update_node g k f) ! n) = successors (nodes g ! n)"
  by (cases "k < length (nodes g)"; cases "n = k") (simp_all add: update_node_def list_update_beyond)

lemma next_successor_cases:
  "next_successor job rest = Load job rest \<or> next_successor job rest = Waiting"
  by (simp add: next_successor_def)

lemma next_transfer_cases:
  "next_transfer g job out rest i = Transfer job out rest i False
   \<or> next_transfer g job out rest i = Load job (successors (nodes g ! snd job))
   \<or> next_transfer g job out rest i = Waiting"
  by (simp add: next_transfer_def next_successor_def)

lemma worker_step_Popped:
  assumes "worker_step w ex = (ex', evs)" "w < length (workers ex)" "workers ex ! w = Popped job"
  shows "moves w ex ex' evs"
proof -
  let ?g = "h_graph (handlers ex ! fst job)"
  let ?nd = "nodes ?g ! snd job"
  consider (dead) "fst job \<ge> length (handlers ex) \<or> deleted (handlers ex ! fst job)"
    | (range) "fst job < length (handlers ex)" "\<not> deleted (handlers ex ! fst job)" "snd job \<ge> length (nodes ?g)"
    | (run) "fst job < length (handlers ex)" "\<not> deleted (handlers ex ! fst job)" "snd job < length (nodes ?g)"
    by linarith
  then show ?thesis
  proof cases
    case dead
    with assms have "ex' = set_worker ex w (Crashed UndefinedBehaviour)" "evs = []"
      by (auto simp: worker_step_def Let_def)
    then show ?thesis by (simp add: m_quiet)
  next
    case range
    with assms have "ex' = set_worker ex w (Crashed StdOutOfRange)" "evs = []"
      by (auto simp: worker_step_def Let_def)
    then show ?thesis by (simp add: m_quiet)
  next
    case run
    have sn: "snd job < length (nodes (instance_graph ex (fst job)))"
      using run(3) by (simp add: instance_graph_def)
    show ?thesis
    proof (cases "Node_execute ?nd")
      case (Inl e)
      with assms run have "ex' = set_worker ex w (Crashed e)" "evs = [Fired job]"
        by (auto simp: worker_step_def Let_def)
      with m_fire [OF assms(2,3) run(1) sn, of "Crashed e" e None] show ?thesis by simp
    next
      case (Inr out)
      show ?thesis
      proof (cases "is_output ?nd")
        case True
        with Inr assms run have "ex' = set_worker ex w (Finishing job out)" "evs = [Fired job]"
          by (auto simp: worker_step_def Let_def)
        with m_fire [OF assms(2,3) run(1) sn, of "Finishing job out" UndefinedBehaviour out] show ?thesis by simp
      next
        case False
        let ?p = "next_transfer ?g job out (output_map ?nd) 0"
        from False Inr assms run have e: "ex' = set_worker ex w ?p" "evs = [Fired job]"
          by (auto simp: worker_step_def Let_def)
        from next_transfer_cases [of ?g job out "output_map ?nd" 0]
        have "?p = Crashed UndefinedBehaviour \<or> ?p = Finishing job out \<or> ?p = Waiting
          \<or> ?p = Transfer job out (output_map (nodes (instance_graph ex (fst job)) ! snd job)) 0 False
          \<or> ?p = Load job (successors_of ex job)"
          by (auto simp: instance_graph_def successors_of_def)
        from m_fire [OF assms(2,3) run(1) sn this] e show ?thesis by simp
      qed
    qed
  qed
qed

lemma worker_step_Transfer:
  assumes "worker_step w ex = (ex', evs)" "w < length (workers ex)"
    "workers ex ! w = Transfer job out rest i d"
  shows "moves w ex ex' evs"
proof -
  let ?g = "h_graph (handlers ex ! fst job)"
  consider (dead) "fst job \<ge> length (handlers ex) \<or> deleted (handlers ex ! fst job) \<or> rest = []"
    | (run) "fst job < length (handlers ex)" "\<not> deleted (handlers ex ! fst job)" "rest \<noteq> []"
    by linarith
  then show ?thesis
  proof cases
    case dead
    with assms have "ex' = set_worker ex w (Crashed UndefinedBehaviour)" "evs = []"
      by (auto simp: worker_step_def Let_def)
    then show ?thesis by (simp add: m_quiet)
  next
    case run
    show ?thesis
    proof (cases d)
      case False
      with assms(3) have pc: "workers ex ! w = Transfer job out rest i False" by simp
      show ?thesis
      proof (cases "fst (hd rest) < length (nodes ?g)")
        case True
        with False assms run have
          "ex' = set_worker (set_graph ex (fst job)
             (update_node (instance_graph ex (fst job)) (fst (hd rest))
               (\<lambda>nd. nd\<lparr>tokens_count := tokens_count nd - 1\<rparr>))) w (Transfer job out rest i True)"
          "evs = [Decremented (fst job) (fst (hd rest))]"
          by (auto simp: worker_step_def Let_def transfer_decrement_def instance_graph_def)
        moreover have "fst (hd rest) < length (nodes (instance_graph ex (fst job)))"
          using True by (simp add: instance_graph_def)
        ultimately show ?thesis
          using m_decrement [OF assms(2) pc run(3) run(1)] by simp
      next
        case oor: False
        with False assms run have "ex' = set_worker ex w (Crashed StdOutOfRange)" "evs = []"
          by (auto simp: worker_step_def Let_def transfer_decrement_def)
        then show ?thesis by (simp add: m_quiet)
      qed
    next
      case True
      with assms(3) have pc: "workers ex ! w = Transfer job out rest i True" by simp
      show ?thesis
      proof (cases "transfer_store ?g (fst (hd rest)) (snd (hd rest)) out i")
        case (Inl e)
        with True assms run have "ex' = set_worker ex w (Crashed e)" "evs = []"
          by (auto simp: worker_step_def Let_def)
        then show ?thesis by (simp add: m_quiet)
      next
        case (Inr g1)
        then obtain ov where ov: "out = Some ov"
          and g1: "g1 = update_node (instance_graph ex (fst job)) (fst (hd rest))
                 (\<lambda>nd. nd\<lparr>input_tokens := (input_tokens nd)[snd (hd rest) := ov ! i]\<rparr>)"
          by (auto simp: transfer_store_def instance_graph_def split: option.splits if_splits)
        let ?p = "next_transfer g1 job out (tl rest) (i + 1)"
        from Inr True assms run have e: "ex' = set_worker (set_graph ex (fst job) g1) w ?p"
          "evs = [Stored (fst job) (fst (hd rest)) (snd (hd rest))]"
          by (auto simp: worker_step_def Let_def)
        have "successors (nodes g1 ! snd job) = successors_of ex job"
          unfolding g1 successors_of_def by (rule successors_update_node) simp
        with next_transfer_cases [of g1 job out "tl rest" "i + 1"]
        have "?p = Transfer job out (tl rest) (i + 1) False \<or> ?p = Load job (successors_of ex job) \<or> ?p = Waiting"
          by auto
        from m_store [OF assms(2) pc run(3) run(1) this, of "ov ! i"] e g1
        show ?thesis by simp
      qed
    qed
  qed
qed

lemma worker_step_moves:
  assumes "worker_step w ex = (ex', evs)"
  shows "moves w ex ex' evs"
proof (cases "w < length (workers ex)")
  case False
  with assms show ?thesis by (simp add: worker_step_def m_idle)
next
  case w: True
  show ?thesis
  proof (cases "workers ex ! w")
    case Waiting
    with assms w show ?thesis
      by (auto simp: worker_step_def split: list.splits if_splits intro: m_idle m_quiet m_pop)
  next
    case Returned
    with assms w show ?thesis by (simp add: worker_step_def m_idle)
  next
    case (Crashed e)
    with assms w show ?thesis by (simp add: worker_step_def m_idle)
  next
    case (Popped job)
    with assms w show ?thesis by (simp add: worker_step_Popped)
  next
    case (Finishing job out)
    with assms w show ?thesis
      by (auto simp: worker_step_def Let_def split: if_splits intro: m_quiet m_finish)
  next
    case (Transfer job out rest i d)
    with assms w show ?thesis by (simp add: worker_step_Transfer)
  next
    case (Load job rest)
    with assms w show ?thesis
      by (auto simp: worker_step_def Let_def next_successor_def split: if_splits intro: m_quiet m_load)
  next
    case (Claim job rest)
    with assms w show ?thesis
      by (auto simp: worker_step_def Let_def next_successor_def instance_graph_def split: if_splits
          intro: m_quiet m_load m_claim [unfolded instance_graph_def])
  next
    case (Enqueue job rest)
    with assms w show ?thesis
      by (auto simp: worker_step_def Let_def next_successor_def split: if_splits intro: m_quiet m_enqueue)
  qed
qed

lemma enqueues_simps [simp]:
  "enqueues [] = []" "enqueues (tr @ tr') = enqueues tr @ enqueues tr'"
  "enqueues [Enqueued j] = [j]" "enqueues [Fired j] = []" "enqueues [Claimed j] = []"
  "enqueues [Decremented h t] = []" "enqueues [Stored h t k] = []"
  by (simp_all add: enqueues_def)

lemma fires_simps [simp]:
  "fires [] = []" "fires (tr @ tr') = fires tr @ fires tr'"
  "fires [Enqueued j] = []" "fires [Fired j] = [j]" "fires [Claimed j] = []"
  "fires [Decremented h t] = []" "fires [Stored h t k] = []"
  by (simp_all add: fires_def)

lemma claims_simps [simp]:
  "claims [] = []" "claims (tr @ tr') = claims tr @ claims tr'"
  "claims [Enqueued j] = []" "claims [Fired j] = []" "claims [Claimed j] = [j]"
  "claims [Decremented h t] = []" "claims [Stored h t k] = []"
  by (simp_all add: claims_def)

lemma enqueues_Cons: "enqueues (e # tr) = (case e of Enqueued j \<Rightarrow> [j] | _ \<Rightarrow> []) @ enqueues tr"
  by (simp add: enqueues_def)

lemma fires_Cons: "fires (e # tr) = (case e of Fired j \<Rightarrow> [j] | _ \<Rightarrow> []) @ fires tr"
  by (simp add: fires_def)

lemma claims_Cons: "claims (e # tr) = (case e of Claimed j \<Rightarrow> [j] | _ \<Rightarrow> []) @ claims tr"
  by (simp add: claims_def)

lemma set_enqueues: "j \<in> set (enqueues tr) \<longleftrightarrow> Enqueued j \<in> set tr"
proof (induction tr)
  case Nil
  show ?case by simp
next
  case (Cons e tr)
  then show ?case by (cases e) (simp_all add: enqueues_Cons)
qed

lemma set_claims: "j \<in> set (claims tr) \<longleftrightarrow> Claimed j \<in> set tr"
proof (induction tr)
  case Nil
  show ?case by simp
next
  case (Cons e tr)
  then show ?case by (cases e) (simp_all add: claims_Cons)
qed

lemma set_fires: "j \<in> set (fires tr) \<longleftrightarrow> Fired j \<in> set tr"
proof (induction tr)
  case Nil
  show ?case by simp
next
  case (Cons e tr)
  then show ?case by (cases e) (simp_all add: fires_Cons)
qed

lemma precedes_Nil [simp]: "precedes a b []"
  by (simp add: precedes_def)

lemma precedesD: "precedes a b tr \<Longrightarrow> i < length tr \<Longrightarrow> tr ! i = b \<Longrightarrow> a \<in> set (take i tr)"
  unfolding precedes_def by blast

lemma precedes_append_other:
  assumes "precedes a b tr" "b \<notin> set evs"
  shows "precedes a b (tr @ evs)"
  unfolding precedes_def
proof (intro allI impI)
  fix i assume i: "i < length (tr @ evs)" and b: "(tr @ evs) ! i = b"
  show "a \<in> set (take i (tr @ evs))"
  proof (cases "i < length tr")
    case True
    with b have "tr ! i = b" by (simp add: nth_append)
    from precedesD [OF assms(1) True this] True show ?thesis by simp
  next
    case False
    with i b have "evs ! (i - length tr) = b" "i - length tr < length evs" by (simp_all add: nth_append)
    then have "b \<in> set evs" using nth_mem by blast
    with assms(2) show ?thesis by blast
  qed
qed

lemma precedes_append_one:
  assumes "precedes a b tr" "a \<in> set tr"
  shows "precedes a b (tr @ [e])"
  unfolding precedes_def
proof (intro allI impI)
  fix i assume i: "i < length (tr @ [e])" and b: "(tr @ [e]) ! i = b"
  show "a \<in> set (take i (tr @ [e]))"
  proof (cases "i < length tr")
    case True
    with b have "tr ! i = b" by (simp add: nth_append)
    from precedesD [OF assms(1) True this] True show ?thesis by simp
  next
    case False
    with i have "i = length tr" by simp
    with assms(2) show ?thesis by simp
  qed
qed

lemma sum_list_map_update:
  fixes f :: "'a \<Rightarrow> 'b::comm_monoid_add"
  shows "w < length ws \<Longrightarrow> sum_list (map f (ws[w := p])) + f (ws ! w) = sum_list (map f ws) + f p"
proof (induction ws arbitrary: w)
  case Nil
  then show ?case by simp
next
  case (Cons a ws)
  show ?case
  proof (cases w)
    case 0
    then show ?thesis by (simp add: ac_simps)
  next
    case (Suc v)
    with Cons.prems have "v < length ws" by simp
    from Cons.IH [OF this] Suc show ?thesis by (simp add: ac_simps)
  qed
qed

lemma helds_set_worker:
  "w < length (workers ex) \<Longrightarrow> helds (set_worker ex w p) + held (workers ex ! w) = helds ex + held p"
  by (simp add: helds_def set_worker_def sum_list_map_update)

lemma pendings_set_worker:
  "w < length (workers ex) \<Longrightarrow> pendings (set_worker ex w p) + pending (workers ex ! w) = pendings ex + pending p"
  by (simp add: pendings_def set_worker_def sum_list_map_update)

lemma wiring_update_node:
  assumes "\<And>nd. successors (f nd) = successors nd"
  shows "wiring (update_node g k f) = wiring g"
proof -
  have "map successors ((nodes g)[k := f (nodes g ! k)]) = map successors (nodes g)"
  proof (cases "k < length (nodes g)")
    case True
    then show ?thesis by (simp add: map_update assms list_update_same_conv)
  next
    case False
    then show ?thesis by (simp add: list_update_beyond)
  qed
  then show ?thesis by (simp add: wiring_def update_node_def)
qed

lemma wiring_nodes:
  assumes "wiring g' = wiring g"
  shows "length (nodes g') = length (nodes g)"
    and "n < length (nodes g) \<Longrightarrow> successors (nodes g' ! n) = successors (nodes g ! n)"
    and "input_node g' = input_node g"
proof -
  from assms have m: "map successors (nodes g') = map successors (nodes g)"
    and i: "input_node g' = input_node g" by (simp_all add: wiring_def)
  from m show l: "length (nodes g') = length (nodes g)" by (rule map_eq_imp_length_eq)
  show "successors (nodes g' ! n) = successors (nodes g ! n)" if "n < length (nodes g)"
    using arg_cong [OF m, of "\<lambda>xs. xs ! n"] that l by simp
  show "input_node g' = input_node g" by (rule i)
qed

lemma reach_wiring_sub:
  assumes "wiring g' = wiring g"
  shows "n \<in> reach g \<Longrightarrow> n \<in> reach g'"
proof (induction rule: reach.induct)
  case root
  show ?case using reach.root [of g'] wiring_nodes(3) [OF assms] by simp
next
  case (edge n s)
  from edge.hyps(2) wiring_nodes(1) [OF assms] have "n < length (nodes g')" by simp
  moreover from edge.hyps(3) wiring_nodes(2) [OF assms edge.hyps(2)]
  have "s \<in> set (successors (nodes g' ! n))" by simp
  ultimately show ?case using edge.IH by (rule reach.edge [rotated])
qed

lemma reach_wiring: "wiring g' = wiring g \<Longrightarrow> reach g' = reach g"
  using reach_wiring_sub [of g' g] reach_wiring_sub [of g g'] by auto

lemma sealed_wiring:
  assumes "wiring g' = wiring g"
  shows "sealed g' = sealed g"
  unfolding sealed_def reach_wiring [OF assms] wiring_nodes(1) [OF assms] wiring_nodes(3) [OF assms]
  using wiring_nodes(2) [OF assms] by (metis)

lemma set_worker_simps [simp]:
  "handlers (set_worker ex w p) = handlers ex"
  "job_queue (set_worker ex w p) = job_queue ex"
  "workers (set_worker ex w p) = (workers ex)[w := p]"
  "instance_graph (set_worker ex w p) h = instance_graph ex h"
  by (simp_all add: set_worker_def instance_graph_def)

lemma set_graph_simps [simp]:
  "length (handlers (set_graph ex h g)) = length (handlers ex)"
  "job_queue (set_graph ex h g) = job_queue ex"
  "workers (set_graph ex h g) = workers ex"
  by (simp_all add: set_graph_def)

lemma instance_graph_set_graph:
  "instance_graph (set_graph ex h g) h' = (if h' = h \<and> h < length (handlers ex) then g else instance_graph ex h')"
  by (cases "h < length (handlers ex)"; cases "h' = h")
     (simp_all add: set_graph_def instance_graph_def list_update_beyond)

lemma queue_update_simps [simp]:
  "instance_graph (ex\<lparr>job_queue := q\<rparr>) h = instance_graph ex h"
  by (simp add: instance_graph_def)

lemma instance_graph_finish [simp]:
  "instance_graph (ex\<lparr>handlers := (handlers ex)[h := (handlers ex ! h)\<lparr>promise := x, deleted := y\<rparr>]\<rparr>) h'
     = instance_graph ex h'"
  by (cases "h < length (handlers ex)"; cases "h' = h")
     (simp_all add: instance_graph_def list_update_beyond)

lemma helds_simps [simp]:
  "helds (ex\<lparr>job_queue := q\<rparr>) = helds ex"
  "helds (ex\<lparr>handlers := hs\<rparr>) = helds ex"
  "helds (set_graph ex h g) = helds ex"
  "helds (ex\<lparr>stop := b\<rparr>) = helds ex"
  by (simp_all add: helds_def set_graph_def)

lemma pendings_simps [simp]:
  "pendings (ex\<lparr>job_queue := q\<rparr>) = pendings ex"
  "pendings (ex\<lparr>handlers := hs\<rparr>) = pendings ex"
  "pendings (set_graph ex h g) = pendings ex"
  "pendings (ex\<lparr>stop := b\<rparr>) = pendings ex"
  by (simp_all add: pendings_def set_graph_def)

lemma processed_update_node:
  "(\<And>nd. processed (f nd) = processed nd \<or> processed (f nd) = Some True) \<Longrightarrow>
   processed (nodes (update_node g k f) ! n) = processed (nodes g ! n)
   \<or> processed (nodes (update_node g k f) ! n) = Some True"
  by (cases "k < length (nodes g)"; cases "n = k") (simp_all add: update_node_def list_update_beyond)

lemma flag_set_graph:
  assumes "\<And>nd. processed (f nd) = processed nd \<or> processed (f nd) = Some True"
    and "flag (handlers ex ! h') n"
  shows "flag (handlers (set_graph ex h (update_node (instance_graph ex h) k f)) ! h') n"
proof (cases "h' = h \<and> h < length (handlers ex)")
  case True
  with processed_update_node [of f "instance_graph ex h" k n, OF assms(1)] assms(2) show ?thesis
    by (auto simp: flag_def set_graph_def instance_graph_def split: option.splits)
next
  case False
  with assms(2) show ?thesis
    by (cases "h < length (handlers ex)") (auto simp: set_graph_def list_update_beyond)
qed

lemma flag_set_worker [simp]: "flag (handlers (set_worker ex w p) ! h) k = flag (handlers ex ! h) k"
  by simp

lemma flag_finish [simp]:
  "flag ((handlers ex)[h := (handlers ex ! h)\<lparr>promise := x, deleted := y\<rparr>] ! h') k = flag (handlers ex ! h') k"
  by (cases "h < length (handlers ex)"; cases "h' = h")
     (simp_all add: flag_def list_update_beyond split: option.splits)

lemma same_wiring_refl [simp]: "same_wiring ex ex"
  by (simp add: same_wiring_def)

lemma flags_kept_refl [simp]: "flags_kept ex ex"
  by (simp add: flags_kept_def)

lemma same_wiring_set_worker [simp]: "same_wiring ex (set_worker ex0 w p) = same_wiring ex ex0"
  by (simp add: same_wiring_def)

lemma flags_kept_set_worker [simp]: "flags_kept ex (set_worker ex0 w p) = flags_kept ex ex0"
  by (simp add: flags_kept_def)

lemma same_wiring_queue [simp]: "same_wiring ex (ex\<lparr>job_queue := q\<rparr>)"
  by (simp add: same_wiring_def)

lemma flags_kept_queue [simp]: "flags_kept ex (ex\<lparr>job_queue := q\<rparr>)"
  by (simp add: flags_kept_def)

lemma same_wiring_finish [simp]:
  "same_wiring ex (ex\<lparr>handlers := (handlers ex)[h := (handlers ex ! h)\<lparr>promise := x, deleted := y\<rparr>]\<rparr>)"
  by (simp add: same_wiring_def)

lemma flags_kept_finish [simp]:
  "flags_kept ex (ex\<lparr>handlers := (handlers ex)[h := (handlers ex ! h)\<lparr>promise := x, deleted := y\<rparr>]\<rparr>)"
  by (simp add: flags_kept_def)

lemma same_wiring_set_graph:
  "(\<And>nd. successors (f nd) = successors nd) \<Longrightarrow>
   same_wiring ex (set_graph ex h (update_node (instance_graph ex h) k f))"
  by (simp add: same_wiring_def instance_graph_set_graph wiring_update_node)

lemma flags_kept_set_graph:
  "(\<And>nd. processed (f nd) = processed nd \<or> processed (f nd) = Some True) \<Longrightarrow>
   flags_kept ex (set_graph ex h (update_node (instance_graph ex h) k f))"
  unfolding flags_kept_def by (intro allI impI flag_set_graph)

lemma moves_frame:
  assumes "moves w ex ex' evs"
  shows "same_wiring ex ex' \<and> flags_kept ex ex'"
  using assms
  by (cases rule: moves.cases) (simp_all add: same_wiring_set_graph flags_kept_set_graph)

lemma extendsD:
  assumes "extends ex ex'"
  shows "length (handlers ex) \<le> length (handlers ex')"
    and "h < length (handlers ex) \<Longrightarrow> wiring (instance_graph ex' h) = wiring (instance_graph ex h)"
    and "h < length (handlers ex) \<Longrightarrow> flag (handlers ex ! h) k \<Longrightarrow> flag (handlers ex' ! h) k"
  using assms unfolding extends_def by blast+

lemma frame_extends: "same_wiring ex ex' \<Longrightarrow> flags_kept ex ex' \<Longrightarrow> extends ex ex'"
  unfolding same_wiring_def flags_kept_def extends_def by simp

lemma same_wiring_length: "same_wiring ex ex' \<Longrightarrow> length (handlers ex') = length (handlers ex)"
  unfolding same_wiring_def by blast

lemma job_ok_extends:
  assumes "extends ex ex'" "job_ok ex j"
  shows "job_ok ex' j"
proof -
  from assms(2) have h: "fst j < length (handlers ex)"
    and r: "snd j \<in> reach (instance_graph ex (fst j))"
    and n: "snd j < length (nodes (instance_graph ex (fst j)))" by (simp_all add: job_ok_def)
  note w = extendsD(2) [OF assms(1) h]
  from extendsD(1) [OF assms(1)] h have "fst j < length (handlers ex')" by simp
  with r n show ?thesis by (simp add: job_ok_def reach_wiring [OF w] wiring_nodes(1) [OF w])
qed

lemma successors_of_extends:
  assumes "extends ex ex'" "job_ok ex j"
  shows "successors_of ex' j = successors_of ex j"
proof -
  from assms(2) have h: "fst j < length (handlers ex)"
    and n: "snd j < length (nodes (instance_graph ex (fst j)))" by (simp_all add: job_ok_def)
  from wiring_nodes(2) [OF extendsD(2) [OF assms(1) h] n] show ?thesis by (simp add: successors_of_def)
qed

lemma worker_ok_extends:
  assumes "extends ex ex'" "worker_ok ex p"
  shows "worker_ok ex' p"
  using assms(2) by (cases p) (auto simp: worker_ok_def job_ok_extends [OF assms(1)] successors_of_extends [OF assms(1)])

lemma input_of_extends: "extends ex ex' \<Longrightarrow> h < length (handlers ex) \<Longrightarrow> input_of ex' h = input_of ex h"
  by (simp add: input_of_def wiring_nodes(3) [OF extendsD(2)])

lemma claimed_ok_extends:
  assumes "extends ex ex'" "claimed_ok ex j"
  shows "claimed_ok ex' j"
proof -
  from assms(2) have h: "fst j < length (handlers ex)"
    and n: "snd j < length (nodes (instance_graph ex (fst j)))"
    and p: "flag (handlers ex ! fst j) (snd j)"
    and i: "snd j \<noteq> input_of ex (fst j)" by (simp_all add: claimed_ok_def)
  note w = extendsD(2) [OF assms(1) h]
  from extendsD(1) [OF assms(1)] h have "fst j < length (handlers ex')" by simp
  moreover from n have "snd j < length (nodes (instance_graph ex' (fst j)))" by (simp add: wiring_nodes(1) [OF w])
  moreover note extendsD(3) [OF assms(1) h p]
  moreover from i have "snd j \<noteq> input_of ex' (fst j)" by (simp add: input_of_extends [OF assms(1) h])
  ultimately show ?thesis by (simp add: claimed_ok_def)
qed

lemma seeds_same:
  assumes "extends ex ex'" "length (handlers ex') = length (handlers ex)"
  shows "seeds ex' = seeds ex"
  unfolding seeds_def assms(2) by (rule map_cong [OF refl]) (simp add: input_of_extends [OF assms(1)])

lemma seeds_grow:
  assumes "extends ex ex'" "length (handlers ex') = Suc (length (handlers ex))"
  shows "seeds ex' = seeds ex @ [(length (handlers ex), input_of ex' (length (handlers ex)))]"
proof -
  have "map (\<lambda>h. (h, input_of ex' h)) [0 ..< length (handlers ex)] = map (\<lambda>h. (h, input_of ex h)) [0 ..< length (handlers ex)]"
    by (rule map_cong [OF refl]) (simp add: input_of_extends [OF assms(1)])
  then show ?thesis by (simp add: seeds_def assms(2))
qed

lemma sealedD:
  "sealed g \<Longrightarrow> n \<in> reach g \<Longrightarrow> n < length (nodes g) \<and> nat (input_node g) \<notin> set (successors (nodes g ! n))"
  unfolding sealed_def by blast

lemma inv_graphsD: "inv_graphs ex \<Longrightarrow> h < length (handlers ex) \<Longrightarrow> sealed (instance_graph ex h)"
  unfolding inv_graphs_def by blast

lemma inv_jobsD:
  assumes "inv_jobs ex"
  shows "j \<in> set (job_queue ex) \<Longrightarrow> job_ok ex j" and "p \<in> set (workers ex) \<Longrightarrow> worker_ok ex p"
  using assms unfolding inv_jobs_def by blast+

lemma inv_jobsI:
  "(\<And>j. j \<in> set (job_queue ex) \<Longrightarrow> job_ok ex j) \<Longrightarrow> (\<And>p. p \<in> set (workers ex) \<Longrightarrow> worker_ok ex p) \<Longrightarrow> inv_jobs ex"
  unfolding inv_jobs_def by blast

lemma job_ok_successor:
  assumes "inv_graphs ex" "job_ok ex j" "s \<in> set (successors_of ex j)"
  shows "job_ok ex (fst j, s)" and "s \<noteq> input_of ex (fst j)"
proof -
  let ?g = "instance_graph ex (fst j)"
  from assms(2) have h: "fst j < length (handlers ex)" and r: "snd j \<in> reach ?g"
    and n: "snd j < length (nodes ?g)" by (simp_all add: job_ok_def)
  note sl = inv_graphsD [OF assms(1) h]
  from assms(3) have s: "s \<in> set (successors (nodes ?g ! snd j))" by (simp add: successors_of_def)
  from reach.edge [OF r n s] have rs: "s \<in> reach ?g" .
  from sealedD [OF sl rs] h rs show "job_ok ex (fst j, s)" by (simp add: job_ok_def)
  from sealedD [OF sl r] s show "s \<noteq> input_of ex (fst j)" by (auto simp: input_of_def)
qed

lemma fire_count_step:
  assumes "w < length (workers ex0)" "helds ex0 = helds ex"
    and "Q' + held p + F \<subseteq># Q + E + held (workers ex0 ! w)"
  shows "Q' + helds (set_worker ex0 w p) + F \<subseteq># Q + helds ex + E"
proof (rule mset_subset_eqI)
  fix a
  from helds_set_worker [OF assms(1), of p]
  have "count (helds (set_worker ex0 w p) + held (workers ex0 ! w)) a = count (helds ex0 + held p) a" by simp
  moreover from assms(3) have "count (Q' + held p + F) a \<le> count (Q + E + held (workers ex0 ! w)) a"
    by (rule mset_subset_eq_count)
  ultimately show "count (Q' + helds (set_worker ex0 w p) + F) a \<le> count (Q + helds ex + E) a"
    by (simp add: assms(2))
qed

lemma enq_count_step:
  assumes "w < length (workers ex0)" "pendings ex0 = pendings ex"
    and "E + pending p \<subseteq># pending (workers ex0 ! w) + C"
  shows "E + pendings (set_worker ex0 w p) \<subseteq># pendings ex + C"
proof (rule mset_subset_eqI)
  fix a
  from pendings_set_worker [OF assms(1), of p]
  have "count (pendings (set_worker ex0 w p) + pending (workers ex0 ! w)) a = count (pendings ex0 + pending p) a" by simp
  moreover from assms(3) have "count (E + pending p) a \<le> count (pending (workers ex0 ! w) + C) a"
    by (rule mset_subset_eq_count)
  ultimately show "count (E + pendings (set_worker ex0 w p)) a \<le> count (pendings ex + C) a"
    by (simp add: assms(2))
qed

lemma set_worker_beyond: "\<not> w < length (workers ex) \<Longrightarrow> set_worker ex w p = ex"
  by (simp add: set_worker_def list_update_beyond)

lemma held_simps [simp]:
  "held Waiting = {#}" "held Returned = {#}" "held (Crashed e) = {#}" "held (Popped j) = {#j#}"
  "held (Finishing j out) = {#}" "held (Transfer j out rest i d) = {#}" "held (Load j ns) = {#}"
  "held (Claim j ns) = {#}" "held (Enqueue j ns) = {#}"
  by (simp_all add: held_def)

lemma pending_simps [simp]:
  "pending Waiting = {#}" "pending Returned = {#}" "pending (Crashed e) = {#}" "pending (Popped j) = {#}"
  "pending (Finishing j out) = {#}" "pending (Transfer j out rest i d) = {#}" "pending (Load j ns) = {#}"
  "pending (Claim j ns) = {#}" "pending (Enqueue j ns) = {#(fst j, hd ns)#}"
  by (simp_all add: pending_def)

lemma moves_fire_count:
  assumes "moves w ex ex' evs"
  shows "mset (job_queue ex') + helds ex' + mset (fires evs) \<subseteq># mset (job_queue ex) + helds ex + mset (enqueues evs)"
  using assms
proof (induction rule: moves.induct)
  case (m_idle ex)
  show ?case by simp
next
  case (m_quiet p e ex)
  show ?case
  proof (cases "w < length (workers ex)")
    case True
    show ?thesis by (rule fire_count_step [OF True refl]) (use m_quiet in auto)
  next
    case False
    then show ?thesis by (simp add: set_worker_beyond)
  qed
next
  case (m_pop ex job q)
  show ?case by (rule fire_count_step) (use m_pop in auto)
next
  case (m_fire ex job p e out)
  show ?case by (rule fire_count_step) (use m_fire in auto)
next
  case (m_finish ex job out)
  show ?case by (rule fire_count_step) (use m_finish in auto)
next
  case (m_decrement ex job out rest i)
  show ?case by (rule fire_count_step) (use m_decrement in auto)
next
  case (m_store ex job out rest i p tok)
  show ?case by (rule fire_count_step) (use m_store in auto)
next
  case (m_load ex job rest p)
  show ?case by (rule fire_count_step) (use m_load in auto)
next
  case (m_claim ex job rest)
  show ?case by (rule fire_count_step) (use m_claim in auto)
next
  case (m_enqueue ex job rest p)
  show ?case by (rule fire_count_step) (use m_enqueue in auto)
qed

lemma moves_enq_count:
  assumes "moves w ex ex' evs"
  shows "mset (enqueues evs) + pendings ex' \<subseteq># pendings ex + mset (claims evs)"
  using assms
proof (induction rule: moves.induct)
  case (m_idle ex)
  show ?case by simp
next
  case (m_quiet p e ex)
  show ?case
  proof (cases "w < length (workers ex)")
    case True
    show ?thesis by (rule enq_count_step [OF True refl]) (use m_quiet in auto)
  next
    case False
    then show ?thesis by (simp add: set_worker_beyond)
  qed
next
  case (m_pop ex job q)
  show ?case by (rule enq_count_step) (use m_pop in auto)
next
  case (m_fire ex job p e out)
  show ?case by (rule enq_count_step) (use m_fire in auto)
next
  case (m_finish ex job out)
  show ?case by (rule enq_count_step) (use m_finish in auto)
next
  case (m_decrement ex job out rest i)
  show ?case by (rule enq_count_step) (use m_decrement in auto)
next
  case (m_store ex job out rest i p tok)
  show ?case by (rule enq_count_step) (use m_store in auto)
next
  case (m_load ex job rest p)
  show ?case by (rule enq_count_step) (use m_load in auto)
next
  case (m_claim ex job rest)
  show ?case by (rule enq_count_step) (use m_claim in auto)
next
  case (m_enqueue ex job rest p)
  show ?case by (rule enq_count_step) (use m_enqueue in auto)
qed

lemma worker_in_set: "w < length (workers ex) \<Longrightarrow> workers ex ! w \<in> set (workers ex)"
  by simp

lemma inv_jobs_step:
  assumes "inv_jobs ex" "extends ex ex'"
    and "\<And>j. j \<in> set (job_queue ex') \<Longrightarrow> j \<in> set (job_queue ex) \<or> job_ok ex j"
    and "workers ex' = (workers ex)[w := p]" "worker_ok ex p"
  shows "inv_jobs ex'"
proof (rule inv_jobsI)
  fix j assume "j \<in> set (job_queue ex')"
  with assms(3) inv_jobsD(1) [OF assms(1)] have "job_ok ex j" by blast
  then show "job_ok ex' j" by (rule job_ok_extends [OF assms(2)])
next
  fix q assume "q \<in> set (workers ex')"
  with assms(4) have "q = p \<or> q \<in> set (workers ex)"
    using set_update_subset_insert [of "workers ex" w p] by auto
  with assms(5) inv_jobsD(2) [OF assms(1)] have "worker_ok ex q" by blast
  then show "worker_ok ex' q" by (rule worker_ok_extends [OF assms(2)])
qed

lemma moves_jobs:
  assumes "moves w ex ex' evs" "inv_graphs ex" "inv_jobs ex"
  shows "inv_jobs ex'"
proof -
  from moves_frame [OF assms(1)] have e: "extends ex ex'" by (simp add: frame_extends)
  note ok = inv_jobsD(2) [OF assms(3) worker_in_set]
  from assms(1) e assms(2,3) show ?thesis
  proof (induction rule: moves.induct)
    case (m_idle ex)
    then show ?case by simp
  next
    case (m_quiet p e ex)
    show ?case by (rule inv_jobs_step [OF m_quiet.prems(3,1), of w p]) (use m_quiet(1) in \<open>auto simp: worker_ok_def\<close>)
  next
    case (m_pop ex job q)
    from inv_jobsD(1) [OF m_pop.prems(3), of job] m_pop(3) have j: "job_ok ex job" by simp
    show ?case by (rule inv_jobs_step [OF m_pop.prems(3,1), of w "Popped job"]) (use j m_pop(3) in \<open>auto simp: worker_ok_def\<close>)
  next
    case (m_fire ex job p e out)
    from inv_jobsD(2) [OF m_fire.prems(3) worker_in_set [OF m_fire.hyps(1)]] m_fire(2) have j: "job_ok ex job"
      by (simp add: worker_ok_def)
    show ?case by (rule inv_jobs_step [OF m_fire.prems(3,1), of w p]) (use j m_fire(5) in \<open>auto simp: worker_ok_def\<close>)
  next
    case (m_finish ex job out)
    show ?case by (rule inv_jobs_step [OF m_finish.prems(3,1), of w Waiting]) (auto simp: worker_ok_def)
  next
    case (m_decrement ex job out rest i)
    from inv_jobsD(2) [OF m_decrement.prems(3) worker_in_set [OF m_decrement.hyps(1)]] m_decrement(2) have j: "job_ok ex job"
      by (simp add: worker_ok_def)
    show ?case by (rule inv_jobs_step [OF m_decrement.prems(3,1), of w "Transfer job out rest i True"]) (use j in \<open>auto simp: worker_ok_def\<close>)
  next
    case (m_store ex job out rest i p tok)
    from inv_jobsD(2) [OF m_store.prems(3) worker_in_set [OF m_store.hyps(1)]] m_store(2) have j: "job_ok ex job"
      by (simp add: worker_ok_def)
    show ?case by (rule inv_jobs_step [OF m_store.prems(3,1), of w p]) (use j m_store(5) in \<open>auto simp: worker_ok_def\<close>)
  next
    case (m_load ex job rest p)
    from inv_jobsD(2) [OF m_load.prems(3) worker_in_set [OF m_load.hyps(1)]] m_load(2)
    have j: "job_ok ex job \<and> set rest \<subseteq> set (successors_of ex job)"
      by (auto simp: worker_ok_def)
    from m_load(3) have t: "set (tl rest) \<subseteq> set rest" by (cases rest) auto
    show ?case by (rule inv_jobs_step [OF m_load.prems(3,1), of w p]) (use j t m_load(4) in \<open>auto simp: worker_ok_def\<close>)
  next
    case (m_claim ex job rest)
    from inv_jobsD(2) [OF m_claim.prems(3) worker_in_set [OF m_claim.hyps(1)]] m_claim(2)
    have j: "job_ok ex job \<and> set rest \<subseteq> set (successors_of ex job)"
      by (auto simp: worker_ok_def)
    show ?case by (rule inv_jobs_step [OF m_claim.prems(3,1), of w "Enqueue job rest"]) (use j m_claim(3) in \<open>auto simp: worker_ok_def\<close>)
  next
    case (m_enqueue ex job rest p)
    from inv_jobsD(2) [OF m_enqueue.prems(3) worker_in_set [OF m_enqueue.hyps(1)]] m_enqueue(2)
    have j: "job_ok ex job" and s: "set rest \<subseteq> set (successors_of ex job)"
      by (auto simp: worker_ok_def)
    from m_enqueue(3) s have "hd rest \<in> set (successors_of ex job)" by (cases rest) auto
    from job_ok_successor(1) [OF m_enqueue.prems(2) j this] have n: "job_ok ex (fst job, hd rest)" .
    from m_enqueue(3) have t: "set (tl rest) \<subseteq> set rest" by (cases rest) auto
    show ?case by (rule inv_jobs_step [OF m_enqueue.prems(3,1), of w p]) (use j s n t m_enqueue(4) in \<open>auto simp: worker_ok_def\<close>)
  qed
qed

lemma held_in_helds: 
  assumes "w < length (workers ex)"
  shows "held (workers ex ! w) \<subseteq># helds ex"
proof -
  from helds_set_worker [OF assms, of Waiting]
  have "helds (set_worker ex w Waiting) + held (workers ex ! w) = helds ex" by simp
  then show ?thesis by (metis mset_subset_eq_add_right)
qed

lemma pending_in_pendings: 
  assumes "w < length (workers ex)"
  shows "pending (workers ex ! w) \<subseteq># pendings ex"
proof -
  from pendings_set_worker [OF assms, of Waiting]
  have "pendings (set_worker ex w Waiting) + pending (workers ex ! w) = pendings ex" by simp
  then show ?thesis by (metis mset_subset_eq_add_right)
qed

lemma moves_fired:
  assumes "moves w ex ex' evs" "Fired j \<in> set evs"
  shows "evs = [Fired j] \<and> j \<in># helds ex"
  using assms
proof (induction rule: moves.induct)
  case (m_fire ex job p e out)
  from held_in_helds [OF m_fire.hyps(1)] m_fire.hyps(2) have "job \<in># helds ex" by simp
  with m_fire.prems show ?case by simp
qed simp_all

lemma moves_enqueued:
  assumes "moves w ex ex' evs" "Enqueued j \<in> set evs"
  shows "evs = [Enqueued j] \<and> j \<in># pendings ex"
  using assms
proof (induction rule: moves.induct)
  case (m_enqueue ex job rest p)
  from pending_in_pendings [OF m_enqueue.hyps(1)] m_enqueue.hyps(2) have "(fst job, hd rest) \<in># pendings ex" by simp
  with m_enqueue.prems show ?case by simp
qed simp_all

lemma moves_claimed:
  assumes "moves w ex ex' evs" "x \<in> set (claims evs)" "inv_graphs ex" "inv_jobs ex"
  shows "evs = [Claimed x] \<and> claimed_ok ex' x \<and> \<not> claimed_ok ex x"
  using assms
proof (induction rule: moves.induct)
  case (m_claim ex job rest)
  let ?g = "update_node (instance_graph ex (fst job)) (hd rest) (\<lambda>nd. nd\<lparr>processed := Some True\<rparr>)"
  from m_claim.prems(1) have x: "x = (fst job, hd rest)" by simp
  from inv_jobsD(2) [OF m_claim.prems(3) worker_in_set [OF m_claim.hyps(1)]] m_claim.hyps(2)
  have j: "job_ok ex job" and s: "set rest \<subseteq> set (successors_of ex job)"
    by (auto simp: worker_ok_def)
  from m_claim.hyps(3) s have "hd rest \<in> set (successors_of ex job)" by (cases rest) auto
  from job_ok_successor(2) [OF m_claim.prems(2) j this] have ni: "hd rest \<noteq> input_of ex (fst job)" .
  have old: "\<not> claimed_ok ex x" using m_claim.hyps(6) by (simp add: claimed_ok_def x)
  have g: "instance_graph (set_graph ex (fst job) ?g) (fst job) = ?g"
    using m_claim.hyps(4) by (simp add: instance_graph_set_graph)
  have "flag (handlers (set_graph ex (fst job) ?g) ! fst job) (hd rest)"
    using m_claim.hyps(4,5) by (simp add: flag_def set_graph_def nth_update_node)
  moreover have "input_of (set_graph ex (fst job) ?g) (fst job) = input_of ex (fst job)"
    by (simp add: input_of_def g) (simp add: update_node_def)
  ultimately have "claimed_ok (set_worker (set_graph ex (fst job) ?g) w (Enqueue job rest)) x"
    using m_claim.hyps(4,5) ni by (simp add: claimed_ok_def x g input_of_def)
  with old x show ?case by simp
qed simp_all

lemma seeds_extends:
  assumes "extends ex ex'"
  shows "set (seeds ex) \<subseteq> set (seeds ex')"
proof
  fix x assume "x \<in> set (seeds ex)"
  then obtain h where h: "h < length (handlers ex)" and x: "x = (h, input_of ex h)"
    by (auto simp: seeds_def)
  from extendsD(1) [OF assms] h have "h < length (handlers ex')" by simp
  with x input_of_extends [OF assms h] show "x \<in> set (seeds ex')" by (auto simp: seeds_def)
qed

lemma exec_invD:
  assumes "exec_inv ex tr"
  shows "inv_graphs ex" "inv_jobs ex" "inv_claims ex tr" "inv_enq ex tr" "inv_fire ex tr" "inv_order ex tr"
  using assms by (simp_all add: exec_inv_def)

lemma inv_claimsD:
  assumes "inv_claims ex tr"
  shows "distinct (claims tr)" and "j \<in> set (claims tr) \<Longrightarrow> claimed_ok ex j"
  using assms unfolding inv_claims_def by blast+

lemma inv_orderD:
  assumes "inv_order ex tr"
  shows "precedes (Enqueued j) (Fired j) tr" and "j \<notin> set (seeds ex) \<Longrightarrow> precedes (Claimed j) (Enqueued j) tr"
  using assms unfolding inv_order_def by blast+

lemma inv_step:
  assumes inv: "exec_inv ex tr"
    and ext: "extends ex ex'"
    and graphs: "inv_graphs ex'"
    and jobs: "inv_jobs ex'"
    and cl: "\<And>x. x \<in> set (claims evs) \<Longrightarrow> evs = [Claimed x] \<and> claimed_ok ex' x \<and> \<not> claimed_ok ex x"
    and enq: "mset (enqueues evs) + pendings ex' + mset (seeds ex) \<subseteq># pendings ex + mset (claims evs) + mset (seeds ex')"
    and fire: "mset (job_queue ex') + helds ex' + mset (fires evs) \<subseteq># mset (job_queue ex) + helds ex + mset (enqueues evs)"
    and fd: "\<And>j. Fired j \<in> set evs \<Longrightarrow> evs = [Fired j] \<and> j \<in># helds ex"
    and ed: "\<And>j. Enqueued j \<in> set evs \<Longrightarrow> evs = [Enqueued j] \<and> (j \<in># pendings ex \<or> j \<in> set (seeds ex'))"
  shows "exec_inv ex' (tr @ evs)"
proof -
  note old = exec_invD [OF inv]
  have oe: "mset (enqueues tr) + pendings ex \<subseteq># mset (claims tr) + mset (seeds ex)"
    using old(4) by (simp add: inv_enq_def)
  have "of": "mset (job_queue ex) + helds ex + mset (fires tr) \<subseteq># mset (enqueues tr)"
    using old(5) by (simp add: inv_fire_def)
  have c: "inv_claims ex' (tr @ evs)"
  proof (cases "claims evs")
    case Nil
    with inv_claimsD [OF old(3)] claimed_ok_extends [OF ext] show ?thesis
      by (simp add: inv_claims_def)
  next
    case (Cons x xs)
    then have "x \<in> set (claims evs)" by simp
    from cl [OF this] have e: "evs = [Claimed x]" and n: "claimed_ok ex' x" and o: "\<not> claimed_ok ex x"
      by blast+
    from o inv_claimsD(2) [OF old(3)] have "x \<notin> set (claims tr)" by blast
    with inv_claimsD [OF old(3)] claimed_ok_extends [OF ext] n show ?thesis
      by (auto simp: inv_claims_def e)
  qed
  have e: "inv_enq ex' (tr @ evs)"
    unfolding inv_enq_def
  proof (rule mset_subset_eqI)
    fix a
    from mset_subset_eq_count [OF oe, of a] mset_subset_eq_count [OF enq, of a]
    show "count (mset (enqueues (tr @ evs)) + pendings ex') a \<le> count (mset (claims (tr @ evs)) + mset (seeds ex')) a"
      by simp
  qed
  have f: "inv_fire ex' (tr @ evs)"
    unfolding inv_fire_def
  proof (rule mset_subset_eqI)
    fix a
    from mset_subset_eq_count [OF "of", of a] mset_subset_eq_count [OF fire, of a]
    show "count (mset (job_queue ex') + helds ex' + mset (fires (tr @ evs))) a \<le> count (mset (enqueues (tr @ evs))) a"
      by simp
  qed
  have o: "inv_order ex' (tr @ evs)"
    unfolding inv_order_def
  proof (intro conjI allI impI)
    fix j
    show "precedes (Enqueued j) (Fired j) (tr @ evs)"
    proof (cases "Fired j \<in> set evs")
      case True
      from fd [OF True] have ev: "evs = [Fired j]" and h: "j \<in># helds ex" by blast+
      have "helds ex \<subseteq># mset (job_queue ex) + helds ex + mset (fires tr)" by simp
      then have "helds ex \<subseteq># mset (enqueues tr)" using "of" by (rule subset_mset.order_trans)
      from mset_subset_eqD [OF this h] have "Enqueued j \<in> set tr" by (simp add: set_enqueues)
      from precedes_append_one [OF inv_orderD(1) [OF old(6)] this] ev show ?thesis by simp
    next
      case False
      from precedes_append_other [OF inv_orderD(1) [OF old(6)] False] show ?thesis .
    qed
  next
    fix j assume ns: "j \<notin> set (seeds ex')"
    with seeds_extends [OF ext] have "j \<notin> set (seeds ex)" by blast
    note p = inv_orderD(2) [OF old(6) this]
    show "precedes (Claimed j) (Enqueued j) (tr @ evs)"
    proof (cases "Enqueued j \<in> set evs")
      case True
      from ed [OF True] ns have ev: "evs = [Enqueued j]" and h: "j \<in># pendings ex" by blast+
      have "pendings ex \<subseteq># mset (enqueues tr) + pendings ex" by simp
      then have "pendings ex \<subseteq># mset (claims tr) + mset (seeds ex)" using oe by (rule subset_mset.order_trans)
      from mset_subset_eqD [OF this h] \<open>j \<notin> set (seeds ex)\<close> have "Claimed j \<in> set tr" by (simp add: set_claims)
      from precedes_append_one [OF p this] ev show ?thesis by simp
    next
      case False
      from precedes_append_other [OF p False] show ?thesis .
    qed
  qed
  from graphs jobs c e f o show ?thesis by (simp add: exec_inv_def)
qed

lemma moves_inv:
  assumes "moves w ex ex' evs" "exec_inv ex tr"
  shows "exec_inv ex' (tr @ evs)"
proof -
  note old = exec_invD [OF assms(2)]
  from moves_frame [OF assms(1)] have sw: "same_wiring ex ex'" and ext: "extends ex ex'"
    by (simp_all add: frame_extends)
  have s: "seeds ex' = seeds ex" by (rule seeds_same [OF ext same_wiring_length [OF sw]])
  show ?thesis
  proof (rule inv_step [OF assms(2) ext])
    show "inv_graphs ex'"
      unfolding inv_graphs_def
    proof (intro allI impI)
      fix h assume "h < length (handlers ex')"
      with same_wiring_length [OF sw] have h: "h < length (handlers ex)" by simp
      from sealed_wiring [OF extendsD(2) [OF ext h]] inv_graphsD [OF old(1) h]
      show "sealed (instance_graph ex' h)" by simp
    qed
    show "inv_jobs ex'" by (rule moves_jobs [OF assms(1) old(1,2)])
    show "evs = [Claimed x] \<and> claimed_ok ex' x \<and> \<not> claimed_ok ex x" if "x \<in> set (claims evs)" for x
      by (rule moves_claimed [OF assms(1) that old(1,2)])
    from moves_enq_count [OF assms(1)]
    show "mset (enqueues evs) + pendings ex' + mset (seeds ex) \<subseteq># pendings ex + mset (claims evs) + mset (seeds ex')"
      by (simp add: s)
    show "mset (job_queue ex') + helds ex' + mset (fires evs) \<subseteq># mset (job_queue ex) + helds ex + mset (enqueues evs)"
      by (rule moves_fire_count [OF assms(1)])
    show "evs = [Fired j] \<and> j \<in># helds ex" if "Fired j \<in> set evs" for j
      by (rule moves_fired [OF assms(1) that])
    show "evs = [Enqueued j] \<and> (j \<in># pendings ex \<or> j \<in> set (seeds ex'))" if "Enqueued j \<in> set evs" for j
      using moves_enqueued [OF assms(1) that] by blast
  qed
qed

lemma wiring_Graph_copy: "wiring (Graph_copy g) = wiring g"
  by (simp add: wiring_def Graph_copy_def Node_copy_def comp_def)

lemma validate_sealed:
  assumes "template_wf m" "Mdf_validate m = Some (None, m1)"
  shows "sealed (graph m1)"
proof (cases "valid m")
  case True
  with assms show ?thesis by (simp add: Mdf_validate_def template_wf_def)
next
  case False
  with assms(2) obtain g' where c: "check_graph (graph m) = Some (None, g')" and g: "graph m1 = g'"
    by (auto simp: Mdf_validate_def split: option.splits prod.splits)
  from check_graph_nodes [OF c] have "wiring g' = wiring (graph m)" by (simp add: wiring_def)
  from sealed_wiring [OF this] check_graph_sealed [OF c] g show ?thesis by simp
qed

lemma run_cases:
  assumes "Executor_run ex m input_args mem_flags = Some (r, m1, ex', evs)"
  shows "ex' = ex \<and> evs = []
     \<or> (\<exists>g. Mdf_validate m = Some (None, m1)
            \<and> send_input_tokens (Graph_copy (graph m1)) input_args = Inr g
            \<and> ex' = ex\<lparr> handlers := handlers ex @
                          [\<lparr> promise = None, h_graph = g, deleted = False, flag_memory = mem_flags \<rparr>],
                        job_queue := job_queue ex @ [(length (handlers ex), nat (input_node g))],
                        graph_pool := graph_pool ex @ [length (handlers ex)] \<rparr>
            \<and> evs = [Enqueued (length (handlers ex), nat (input_node g))])"
  using assms by (auto simp: Executor_run_def Let_def split: option.splits prod.splits sum.splits)

lemma wiring_send_input_tokens:
  "send_input_tokens g0 input_args = Inr g \<Longrightarrow> wiring g = wiring g0"
  by (auto simp: send_input_tokens_def Let_def wiring_update_node split: if_splits)

lemma run_inv:
  fixes ex :: "'v Executor"
  assumes "Executor_run ex m input_args mem_flags = Some (r, m1, ex', evs)" "template_wf m" "exec_inv ex tr"
  shows "exec_inv ex' (tr @ evs)"
proof -
  note old = exec_invD [OF assms(3)]
  from run_cases [OF assms(1)] show ?thesis
  proof (elim disjE exE conjE)
    assume "ex' = ex" "evs = []"
    with assms(3) show ?thesis by simp
  next
    fix g :: "'v graph"
    let ?n = "length (handlers ex)"
    let ?job = "(?n, nat (input_node g))"
    assume v: "Mdf_validate m = Some (None, m1)"
      and s: "send_input_tokens (Graph_copy (graph m1)) input_args = Inr g"
      and ex': "ex' = ex\<lparr> handlers := handlers ex @
                          [\<lparr> promise = None, h_graph = g, deleted = False, flag_memory = mem_flags \<rparr>],
                        job_queue := job_queue ex @ [?job],
                        graph_pool := graph_pool ex @ [?n] \<rparr>"
      and evs: "evs = [Enqueued ?job]"
    from wiring_send_input_tokens [OF s] have "wiring g = wiring (graph m1)" by (simp add: wiring_Graph_copy)
    from sealed_wiring [OF this] validate_sealed [OF assms(2) v] have sg: "sealed g" by simp
    have len: "length (handlers ex') = Suc ?n" by (simp add: ex')
    have oldh: "handlers ex' ! h = handlers ex ! h" if "h < ?n" for h
      using that by (simp add: ex' nth_append)
    have oldg: "instance_graph ex' h = instance_graph ex h" if "h < ?n" for h
      using oldh [OF that] by (simp add: instance_graph_def)
    have newg: "instance_graph ex' ?n = g" by (simp add: instance_graph_def ex')
    have ext: "extends ex ex'"
      unfolding extends_def using oldh oldg len by simp
    have q: "job_queue ex' = job_queue ex @ [?job]" and w: "workers ex' = workers ex"
      by (simp_all add: ex')
    have sd: "seeds ex' = seeds ex @ [?job]"
      using seeds_grow [OF ext len] by (simp add: input_of_def newg)
    have jok: "job_ok ex' ?job"
      using sealedD [OF sg reach.root] reach.root [of g] by (simp add: job_ok_def len newg)
    show ?thesis
    proof (rule inv_step [OF assms(3) ext])
      show "inv_graphs ex'"
        unfolding inv_graphs_def
      proof (intro allI impI)
        fix h assume "h < length (handlers ex')"
        with len have "h < ?n \<or> h = ?n" by auto
        with inv_graphsD [OF old(1)] oldg newg sg show "sealed (instance_graph ex' h)" by auto
      qed
      show "inv_jobs ex'"
      proof (rule inv_jobsI)
        fix j assume "j \<in> set (job_queue ex')"
        with q have "j \<in> set (job_queue ex) \<or> j = ?job" by auto
        with inv_jobsD(1) [OF old(2)] job_ok_extends [OF ext] jok show "job_ok ex' j" by blast
      next
        fix p assume "p \<in> set (workers ex')"
        with w inv_jobsD(2) [OF old(2)] worker_ok_extends [OF ext] show "worker_ok ex' p" by simp
      qed
      show "evs = [Claimed x] \<and> claimed_ok ex' x \<and> \<not> claimed_ok ex x" if "x \<in> set (claims evs)" for x
        using that by (simp add: evs)
      have "pendings ex' = pendings ex" "helds ex' = helds ex" by (simp_all add: pendings_def helds_def w)
      then show "mset (enqueues evs) + pendings ex' + mset (seeds ex) \<subseteq># pendings ex + mset (claims evs) + mset (seeds ex')"
        and "mset (job_queue ex') + helds ex' + mset (fires evs) \<subseteq># mset (job_queue ex) + helds ex + mset (enqueues evs)"
        by (simp_all add: evs sd q)
      show "evs = [Fired j] \<and> j \<in># helds ex" if "Fired j \<in> set evs" for j
        using that by (simp add: evs)
      show "evs = [Enqueued j] \<and> (j \<in># pendings ex \<or> j \<in> set (seeds ex'))" if "Enqueued j \<in> set evs" for j
        using that by (simp add: evs sd)
    qed
  qed
qed

lemma stop_inv:
  assumes "exec_inv ex tr"
  shows "exec_inv (ex\<lparr>stop := True\<rparr>) tr"
proof -
  let ?ex = "ex\<lparr>stop := True\<rparr>"
  note old = exec_invD [OF assms]
  have g: "instance_graph ?ex h = instance_graph ex h" for h by (simp add: instance_graph_def)
  have ext: "extends ex ?ex" by (simp add: extends_def g)
  have sd: "seeds ?ex = seeds ex" by (rule seeds_same [OF ext]) simp
  have "exec_inv ?ex (tr @ [])"
  proof (rule inv_step [OF assms ext])
    show "inv_graphs ?ex" using old(1) by (simp add: inv_graphs_def g)
    show "inv_jobs ?ex"
      using inv_jobsD [OF old(2)] job_ok_extends [OF ext] worker_ok_extends [OF ext]
      by (intro inv_jobsI) simp_all
  qed (simp_all add: sd)
  then show ?thesis by simp
qed

lemma step_inv:
  assumes "step a ex = Some (ex', evs)" "exec_inv ex tr" "\<forall>m \<in> set (submitted [a]). template_wf m"
  shows "exec_inv ex' (tr @ evs)"
proof (cases a)
  case (Work w)
  with assms(1) have "worker_step w ex = (ex', evs)" by (simp add: step_def)
  from moves_inv [OF worker_step_moves [OF this] assms(2)] show ?thesis .
next
  case (Submit m input_args mem_flags)
  with assms(1) obtain r m1 where r: "Executor_run ex m input_args mem_flags = Some (r, m1, ex', evs)"
    by (auto simp: step_def split: option.splits)
  from assms(3) Submit have "template_wf m" by (simp add: submitted_def)
  from run_inv [OF r this assms(2)] show ?thesis .
next
  case Shutdown
  with assms(1) have "ex' = ex\<lparr>stop := True\<rparr>" "evs = []" by (simp_all add: step_def)
  with stop_inv [OF assms(2)] show ?thesis by simp
qed

lemma submitted_Cons: "submitted (a # as) = submitted [a] @ submitted as"
  by (simp add: submitted_def)

lemma execute_inv:
  "execute sched ex = Some (ex', evs) \<Longrightarrow> exec_inv ex tr \<Longrightarrow> \<forall>m \<in> set (submitted sched). template_wf m \<Longrightarrow>
   exec_inv ex' (tr @ evs)"
proof (induction sched arbitrary: ex tr evs)
  case Nil
  then show ?case by simp
next
  case (Cons a as)
  from Cons.prems(1) obtain ex1 evs1 evs2 where s: "step a ex = Some (ex1, evs1)"
    and e: "execute as ex1 = Some (ex', evs2)" and evs: "evs = evs1 @ evs2"
    by (auto split: option.splits prod.splits)
  from Cons.prems(3) have wa: "\<forall>m \<in> set (submitted [a]). template_wf m"
    and was: "\<forall>m \<in> set (submitted as). template_wf m"
    using submitted_Cons [of a as] by auto
  from step_inv [OF s Cons.prems(2) wa] have "exec_inv ex1 (tr @ evs1)" .
  from Cons.IH [OF e this was] evs show ?case by simp
qed

lemma sum_list_replicate_empty: "sum_list (replicate n ({#} :: 'a multiset)) = {#}"
  by (induction n) simp_all

lemma exec_inv_initial: "exec_inv (Executor n) []"
  by (simp add: exec_inv_def inv_graphs_def inv_jobs_def inv_claims_def inv_enq_def inv_fire_def
      inv_order_def Executor_def worker_ok_def seeds_def pendings_def helds_def sum_list_replicate_empty)

lemma distinct_sub:
  assumes "mset xs \<subseteq># mset ys" "distinct ys"
  shows "distinct xs"
  unfolding distinct_count_atmost_1
proof (intro allI)
  fix a
  from assms(2) have "count (mset ys) a \<le> 1" by (simp add: distinct_count_atmost_1)
  with mset_subset_eq_count [OF assms(1), of a] have le: "count (mset xs) a \<le> 1" by simp
  have "count (mset xs) a = 0 \<longleftrightarrow> a \<notin> set xs" by simp
  show "count (mset xs) a = (if a \<in> set xs then 1 else 0)"
  proof (cases "a \<in> set xs")
    case True
    then have "count (mset xs) a \<noteq> 0" by simp
    with le have "count (mset xs) a = 1" by linarith
    with True show ?thesis by (simp only: if_True)
  next
    case False
    then show ?thesis by simp
  qed
qed

lemma distinct_seeds: "distinct (seeds ex)"
  by (simp add: seeds_def distinct_map inj_on_def)

lemma exec_inv_distinct:
  assumes "exec_inv ex tr"
  shows "distinct (claims tr)" "distinct (enqueues tr)" "distinct (fires tr)"
proof -
  note old = exec_invD [OF assms]
  show c: "distinct (claims tr)" by (rule inv_claimsD(1) [OF old(3)])
  have "j \<notin> set (seeds ex)" if "j \<in> set (claims tr)" for j
  proof
    assume "j \<in> set (seeds ex)"
    then have "snd j = input_of ex (fst j)" by (auto simp: seeds_def)
    with inv_claimsD(2) [OF old(3) that] show False by (simp add: claimed_ok_def)
  qed
  then have "set (claims tr) \<inter> set (seeds ex) = {}" by blast
  with c distinct_seeds [of ex] have d: "distinct (claims tr @ seeds ex)" by simp
  from old(4) have oe: "mset (enqueues tr) + pendings ex \<subseteq># mset (claims tr) + mset (seeds ex)"
    by (simp add: inv_enq_def)
  have "mset (enqueues tr) \<subseteq># mset (enqueues tr) + pendings ex" by simp
  from subset_mset.order_trans [OF this oe] have "mset (enqueues tr) \<subseteq># mset (claims tr @ seeds ex)"
    by simp
  from distinct_sub [OF this d] show e: "distinct (enqueues tr)" .
  from old(5) have "of": "mset (job_queue ex) + helds ex + mset (fires tr) \<subseteq># mset (enqueues tr)"
    by (simp add: inv_fire_def)
  have "mset (fires tr) \<subseteq># mset (job_queue ex) + helds ex + mset (fires tr)" by simp
  from subset_mset.order_trans [OF this "of"] have "mset (fires tr) \<subseteq># mset (enqueues tr)" .
  from distinct_sub [OF this e] show "distinct (fires tr)" .
qed

lemma reach_append:
  assumes "sealed g" "n \<in> reach (g\<lparr>nodes := nodes g @ [nd]\<rparr>)"
  shows "n \<in> reach g"
  using assms(2)
proof (induction rule: reach.induct)
  case root
  show ?case using reach.root [of g] by simp
next
  case (edge n s)
  from sealedD [OF assms(1) edge.IH] have n: "n < length (nodes g)" by simp
  with edge.hyps(3) have "s \<in> set (successors (nodes g ! n))" by (simp add: nth_append)
  from reach.edge [OF edge.IH n this] show ?case .
qed

lemma sealed_append:
  assumes "sealed g"
  shows "sealed (g\<lparr>nodes := nodes g @ [nd]\<rparr>)"
  unfolding sealed_def
proof
  fix n assume "n \<in> reach (g\<lparr>nodes := nodes g @ [nd]\<rparr>)"
  from sealedD [OF assms reach_append [OF assms this]]
  show "n < length (nodes (g\<lparr>nodes := nodes g @ [nd]\<rparr>))
        \<and> nat (input_node (g\<lparr>nodes := nodes g @ [nd]\<rparr>)) \<notin> set (successors (nodes (g\<lparr>nodes := nodes g @ [nd]\<rparr>) ! n))"
    by (simp add: nth_append)
qed

lemma template_wf_new: "template_wf (Mdf gid)"
  by (simp add: template_wf_def Mdf_def)

lemma template_wf_add_node:
  assumes "template_wf m"
  shows "template_wf (snd (Mdf_emplace_back m f))"
    and "template_wf (snd (Mdf_emplace_back_instruction mem m ins))"
    and "template_wf (snd (Mdf_merge_node m isz))"
    and "template_wf (snd (Mdf_split_node m osz))"
  using assms
  by (auto simp: template_wf_def Mdf_emplace_back_def Mdf_emplace_back_instruction_def Mdf_merge_node_def
      Mdf_split_node_def Graph_emplace_back_def Graph_emplace_back_node_def Graph_merge_node_def
      Graph_split_node_def sealed_append split: option.splits)

lemma template_wf_unchanged: "template_wf m \<Longrightarrow> valid m' = valid m \<Longrightarrow> (valid m \<Longrightarrow> m' = m) \<Longrightarrow> template_wf m'"
  by (auto simp: template_wf_def)

lemma valid_connect: "valid (snd (connect m k x)) = valid m"
  by (simp add: connect_def Let_def split: sum.splits)

lemma valid_set_output_loop: "valid (snd (set_output_loop m k omap)) = valid m"
proof (induction omap arbitrary: m)
  case Nil
  show ?case by simp
next
  case (Cons x omap)
  show ?case
  proof (cases "connect m k x")
    case (Pair r m1)
    with valid_connect [of m k x] have v: "valid m1 = valid m" by simp
    show ?thesis
    proof (cases r)
      case None
      with Pair Cons.IH [of m1] v show ?thesis by simp
    next
      case (Some e)
      with Pair v show ?thesis by simp
    qed
  qed
qed

lemma valid_connectD: "connect m k x = (r, m1) \<Longrightarrow> valid m1 = valid m"
  using valid_connect [of m k x] by simp

lemma valid_set_output_loopD: "set_output_loop m k omap = (r, m1) \<Longrightarrow> valid m1 = valid m"
  using valid_set_output_loop [of m k omap] by simp

lemma valid_wire:
  shows "valid (snd (Mdf_set_output m ins omap)) = valid m"
    and "valid (snd (Mdf_add_output m ins x)) = valid m"
    and "valid (snd (Mdf_mark_as_input mem m ins)) = valid m"
    and "valid (snd (Mdf_mark_as_output mem m ins)) = valid m"
proof -
  show "valid (snd (Mdf_set_output m ins omap)) = valid m"
    by (auto simp: Mdf_set_output_def split: option.splits prod.splits dest: valid_set_output_loopD)
  show "valid (snd (Mdf_add_output m ins x)) = valid m"
    by (auto simp: Mdf_add_output_def split: option.splits prod.splits dest: valid_connectD)
  show "valid (snd (Mdf_mark_as_input mem m ins)) = valid m"
    by (simp add: Mdf_mark_as_input_def split: option.splits)
  show "valid (snd (Mdf_mark_as_output mem m ins)) = valid m"
    by (simp add: Mdf_mark_as_output_def split: option.splits bool.splits)
qed

lemma template_wf_wire:
  assumes "template_wf m"
  shows "template_wf (snd (Mdf_set_output m ins omap))"
    and "template_wf (snd (Mdf_add_output m ins x))"
    and "template_wf (snd (Mdf_mark_as_input mem m ins))"
    and "template_wf (snd (Mdf_mark_as_output mem m ins))"
proof -
  show "template_wf (snd (Mdf_set_output m ins omap))"
    by (rule template_wf_unchanged [OF assms valid_wire(1)]) (simp add: Mdf_set_output_def)
  show "template_wf (snd (Mdf_add_output m ins x))"
    by (rule template_wf_unchanged [OF assms valid_wire(2)]) (simp add: Mdf_add_output_def)
  show "template_wf (snd (Mdf_mark_as_input mem m ins))"
    by (rule template_wf_unchanged [OF assms valid_wire(3)]) (simp add: Mdf_mark_as_input_def)
  show "template_wf (snd (Mdf_mark_as_output mem m ins))"
    by (rule template_wf_unchanged [OF assms valid_wire(4)]) (simp add: Mdf_mark_as_output_def)
qed

lemma template_wf_validate:
  assumes "template_wf m" "Mdf_validate m = Some (r, m1)"
  shows "template_wf m1"
proof (cases r)
  case None
  with validate_sealed [OF assms(1)] assms(2) show ?thesis by (simp add: template_wf_def)
next
  case (Some e)
  with assms show ?thesis
    by (auto simp: Mdf_validate_def template_wf_def split: if_splits option.splits prod.splits)
qed

lemma template_wf_send_to_loop:
  "template_wf m \<Longrightarrow> template_wf (fst (snd (send_to_loop mem n m ins other)))"
proof (induction n arbitrary: m ins)
  case 0
  then show ?case by simp
next
  case (Suc n)
  show ?case
  proof (cases "deref mem m other")
    case None
    with Suc.prems show ?thesis by simp
  next
    case (Some ond)
    let ?ins1 = "ins\<lparr>last_output := last_output ins + 1\<rparr>"
    obtain r m1 where a: "Mdf_add_output m ?ins1 (node_id ond, last_output ins) = (r, m1)"
      by (cases "Mdf_add_output m ?ins1 (node_id ond, last_output ins)")
    from template_wf_wire(2) [OF Suc.prems, of ?ins1 "(node_id ond, last_output ins)"] a
    have w: "template_wf m1" by simp
    show ?thesis
    proof (cases r)
      case None
      with Some a Suc.IH [OF w, of ?ins1] show ?thesis by (simp add: Let_def)
    next
      case (Some e)
      with \<open>deref mem m other = Some ond\<close> a w show ?thesis by (simp add: Let_def)
    qed
  qed
qed

lemma template_wf_send_to:
  "template_wf m \<Longrightarrow> template_wf (fst (snd (Mdf_send_to mem m ins other)))"
  by (simp add: Mdf_send_to_def template_wf_send_to_loop split: option.splits)

lemma template_wf_send_to_variadic:
  "template_wf m \<Longrightarrow> template_wf (fst (snd (Mdf_send_to_variadic mem m ins others)))"
proof (induction mem m ins others rule: Mdf_send_to_variadic.induct)
  case (1 mem m ins)
  then show ?case by simp
next
  case (2 mem m ins other)
  then show ?case by (simp add: template_wf_send_to)
next
  case (3 mem m ins head v va)
  obtain r m1 ins1 where s: "Mdf_send_to mem m ins head = (r, m1, ins1)"
    by (cases "Mdf_send_to mem m ins head")
  from template_wf_send_to [OF "3.prems", of mem ins head] s have w: "template_wf m1" by simp
  show ?case
  proof (cases r)
    case None
    with s "3.IH" [OF _ _ _ w] show ?thesis by simp
  next
    case (Some e)
    with s w show ?thesis by simp
  qed
qed

lemma template_wf_send_to_inputs:
  "template_wf m \<Longrightarrow> template_wf (fst (snd (send_to_inputs m ins cid j n i)))"
proof (induction n arbitrary: m j i)
  case 0
  then show ?case by simp
next
  case (Suc n)
  obtain r m1 where a: "Mdf_add_output m ins (cid, j) = (r, m1)"
    by (cases "Mdf_add_output m ins (cid, j)")
  from template_wf_wire(2) [OF Suc.prems, of ins "(cid, j)"] a have w: "template_wf m1" by simp
  show ?case
  proof (cases r)
    case None
    with a Suc.IH [OF w] show ?thesis by simp
  next
    case (Some e)
    with a w show ?thesis by simp
  qed
qed

lemma template_wf_send_to_pass:
  "template_wf m \<Longrightarrow> template_wf (fst (snd (send_to_pass mem m ins cs i)))"
proof (induction cs arbitrary: m i)
  case Nil
  then show ?case by simp
next
  case (Cons c cs)
  show ?case
  proof (cases "deref mem m c")
    case None
    with Cons.prems show ?thesis by simp
  next
    case (Some cnd)
    obtain r m1 i1 where a: "send_to_inputs m ins (node_id cnd) 0 (input_size cnd) i = (r, m1, i1)"
      by (cases "send_to_inputs m ins (node_id cnd) 0 (input_size cnd) i")
    from template_wf_send_to_inputs [OF Cons.prems, of ins "node_id cnd" 0 "input_size cnd" i] a
    have w: "template_wf m1" by simp
    show ?thesis
    proof (cases r)
      case None
      with Some a Cons.IH [OF w] show ?thesis by simp
    next
      case (Some e)
      with \<open>deref mem m c = Some cnd\<close> a w show ?thesis by simp
    qed
  qed
qed

lemma template_wf_send_to_passes:
  "template_wf m \<Longrightarrow> send_to_passes mem m ins other osz i = Some (r, m') \<Longrightarrow> template_wf m'"
proof (induction mem m ins other osz i rule: send_to_passes.induct)
  case (1 mem m ins other osz i)
  show ?case
  proof (cases "i < osz")
    case False
    with "1.prems" show ?thesis by simp
  next
    case True
    obtain e m1 i1 where p: "send_to_pass mem m ins other i = (e, m1, i1)"
      by (cases "send_to_pass mem m ins other i")
    from template_wf_send_to_pass [OF "1.prems"(1), of mem ins other i] p have w: "template_wf m1" by simp
    show ?thesis
    proof (cases e)
      case (Some x)
      with True p w "1.prems"(2) show ?thesis by simp
    next
      case None
      with True p "1.prems"(2) have "i < i1" and "send_to_passes mem m1 ins other osz i1 = Some (r, m')"
        by (simp_all split: if_splits)
      with "1.IH" [OF True p [symmetric] _ _ _ w] None show ?thesis by simp
    qed
  qed
qed

lemma template_wf_send_to_vector:
  "template_wf m \<Longrightarrow> Mdf_send_to_vector mem m ins other = Some (r, m') \<Longrightarrow> template_wf m'"
  by (auto simp: Mdf_send_to_vector_def template_wf_send_to_passes split: if_splits option.splits)
section \<open>The counter of a node with an unwired slot\<close>

lemma board_update_node:
  assumes "\<And>nd. output_map (f nd) = output_map nd" "\<And>nd. input_size (f nd) = input_size nd"
  shows "board (update_node g k f) = board g"
proof -
  have "map (\<lambda>nd. (output_map nd, input_size nd)) ((nodes g)[k := f (nodes g ! k)])
          = map (\<lambda>nd. (output_map nd, input_size nd)) (nodes g)"
  proof (cases "k < length (nodes g)")
    case True
    then show ?thesis by (simp add: map_update assms list_update_same_conv)
  next
    case False
    then show ?thesis by (simp add: list_update_beyond)
  qed
  then show ?thesis by (simp add: board_def update_node_def)
qed

lemma board_nth:
  assumes "board g' = board g"
  shows "length (nodes g') = length (nodes g)"
    and "k < length (nodes g) \<Longrightarrow> output_map (nodes g' ! k) = output_map (nodes g ! k)"
    and "k < length (nodes g) \<Longrightarrow> input_size (nodes g' ! k) = input_size (nodes g ! k)"
proof -
  from assms have m: "map (\<lambda>nd. (output_map nd, input_size nd)) (nodes g')
      = map (\<lambda>nd. (output_map nd, input_size nd)) (nodes g)" by (simp add: board_def)
  from m show l: "length (nodes g') = length (nodes g)" by (rule map_eq_imp_length_eq)
  show "output_map (nodes g' ! k) = output_map (nodes g ! k)" if "k < length (nodes g)"
    using arg_cong [OF m, of "\<lambda>xs. fst (xs ! k)"] that l by simp
  show "input_size (nodes g' ! k) = input_size (nodes g ! k)" if "k < length (nodes g)"
    using arg_cong [OF m, of "\<lambda>xs. snd (xs ! k)"] that l by simp
qed

lemma same_board_refl [simp]: "same_board ex ex"
  by (simp add: same_board_def)

lemma same_board_set_worker [simp]: "same_board ex (set_worker ex0 w p) = same_board ex ex0"
  by (simp add: same_board_def)

lemma same_board_queue [simp]: "same_board ex (ex\<lparr>job_queue := q\<rparr>)"
  by (simp add: same_board_def)

lemma same_board_finish [simp]:
  "same_board ex (ex\<lparr>handlers := (handlers ex)[h := (handlers ex ! h)\<lparr>promise := x, deleted := y\<rparr>]\<rparr>)"
  by (simp add: same_board_def)

lemma same_board_set_graph:
  "(\<And>nd. output_map (f nd) = output_map nd) \<Longrightarrow> (\<And>nd. input_size (f nd) = input_size nd) \<Longrightarrow>
   same_board ex (set_graph ex h (update_node (instance_graph ex h) k f))"
  by (simp add: same_board_def instance_graph_set_graph board_update_node)

lemma moves_board:
  assumes "moves w ex ex' evs"
  shows "same_board ex ex'"
  using assms
  by (cases rule: moves.cases) (simp_all add: same_board_set_graph)

lemma routes_of_same:
  assumes "same_board ex ex'" "length (handlers ex') = length (handlers ex)"
  shows "routes_of ex' h k = routes_of ex h k"
proof -
  from assms(1) have b: "board (instance_graph ex' h) = board (instance_graph ex h)"
    by (simp add: same_board_def)
  from board_nth(1,2) [OF b] assms(2) show ?thesis by (auto simp: routes_of_def)
qed

lemma supplied_same:
  assumes "same_board ex ex'" "length (handlers ex') = length (handlers ex)"
  shows "supplied ex' js h t = supplied ex js h t"
  by (simp add: supplied_def routes_of_same [OF assms] cong: if_cong)

lemma supplied_append [simp]: "supplied ex (js @ js') h t = supplied ex js h t + supplied ex js' h t"
  by (simp add: supplied_def)

lemma decs_append [simp]: "decs (tr @ tr') h t = decs tr h t + decs tr' h t"
  by (simp add: decs_def)

lemma decs_simps [simp]:
  "decs [] h t = 0" "decs [Enqueued j] h t = 0" "decs [Fired j] h t = 0" "decs [Claimed j] h t = 0"
  "decs [Stored a b c] h t = 0" "decs [Decremented a b] h t = (if a = h \<and> b = t then 1 else 0)"
  by (auto simp: decs_def)

lemma owes_simps [simp]:
  "owes Waiting h t = 0" "owes Returned h t = 0" "owes (Crashed e) h t = 0" "owes (Popped j) h t = 0"
  "owes (Finishing j out) h t = 0" "owes (Load j ns) h t = 0" "owes (Claim j ns) h t = 0"
  "owes (Enqueue j ns) h t = 0"
  "owes (Transfer j out rest i d) h t = (if fst j = h then cnt t (if d then tl rest else rest) else 0)"
  by (simp_all add: owes_def)

lemma owed_simps [simp]:
  "owed (ex\<lparr>job_queue := q\<rparr>) h t = owed ex h t"
  "owed (ex\<lparr>handlers := hs\<rparr>) h t = owed ex h t"
  "owed (set_graph ex a g) h t = owed ex h t"
  "owed (ex\<lparr>stop := b\<rparr>) h t = owed ex h t"
  by (simp_all add: owed_def set_graph_def)

lemma owed_set_worker:
  "w < length (workers ex) \<Longrightarrow>
   owed (set_worker ex w p) h t + owes (workers ex ! w) h t = owed ex h t + owes p h t"
  using sum_list_map_update [of w "workers ex" "\<lambda>p. owes p h t" p]
  by (simp add: owed_def set_worker_def)

lemma owed_step:
  assumes "w < length (workers ex0)" "owed ex0 h t = owed ex h t"
    and "D + owes p h t \<le> owes (workers ex0 ! w) h t + S"
  shows "D + owed (set_worker ex0 w p) h t \<le> owed ex h t + S"
  using owed_set_worker [OF assms(1), of p h t] assms(2,3) by simp

lemma cnt_tl: "rest \<noteq> [] \<Longrightarrow> (if fst (hd rest) = t then 1 else 0) + cnt t (tl rest) = cnt t rest"
  by (cases rest) (simp_all add: cnt_def)

lemma cnt_tl_le: "cnt t (tl rest) \<le> cnt t rest"
  by (cases rest) (simp_all add: cnt_def)

lemma moves_owed:
  assumes "moves w ex ex' evs"
  shows "decs evs h t + owed ex' h t \<le> owed ex h t + supplied ex (fires evs) h t"
  using assms
proof (induction rule: moves.induct)
  case (m_idle ex)
  show ?case by simp
next
  case (m_quiet p e ex)
  show ?case
  proof (cases "w < length (workers ex)")
    case True
    show ?thesis by (rule owed_step [OF True refl]) (use m_quiet in \<open>auto simp: supplied_def\<close>)
  next
    case False
    then show ?thesis by (simp add: set_worker_beyond)
  qed
next
  case (m_pop ex job q)
  show ?case by (rule owed_step) (use m_pop in \<open>auto simp: supplied_def\<close>)
next
  case (m_fire ex job p e out)
  have r: "routes_of ex (fst job) (snd job) = output_map (nodes (instance_graph ex (fst job)) ! snd job)"
    using m_fire.hyps(3,4) by (simp add: routes_of_def)
  show ?case by (rule owed_step) (use m_fire r in \<open>auto simp: supplied_def\<close>)
next
  case (m_finish ex job out)
  show ?case by (rule owed_step) (use m_finish in \<open>auto simp: supplied_def\<close>)
next
  case (m_decrement ex job out rest i)
  show ?case by (rule owed_step) (use m_decrement cnt_tl [of rest t] in \<open>auto simp: supplied_def\<close>)
next
  case (m_store ex job out rest i p tok)
  show ?case by (rule owed_step) (use m_store in \<open>auto simp: supplied_def\<close>)
next
  case (m_load ex job rest p)
  show ?case by (rule owed_step) (use m_load in \<open>auto simp: supplied_def\<close>)
next
  case (m_claim ex job rest)
  show ?case by (rule owed_step) (use m_claim in \<open>auto simp: supplied_def\<close>)
next
  case (m_enqueue ex job rest p)
  show ?case by (rule owed_step) (use m_enqueue in \<open>auto simp: supplied_def\<close>)
qed

lemma tokens_update_node:
  "(\<And>nd. tokens_count (f nd) = tokens_count nd) \<Longrightarrow>
   tokens_count (nodes (update_node g k f) ! n) = tokens_count (nodes g ! n)"
  by (cases "k < length (nodes g)"; cases "n = k") (simp_all add: update_node_def list_update_beyond)

lemma tokens_set_graph:
  "(\<And>nd. tokens_count (f nd) = tokens_count nd) \<Longrightarrow>
   tokens_count (nodes (instance_graph (set_graph ex h0 (update_node (instance_graph ex h0) k f)) h) ! t)
     = tokens_count (nodes (instance_graph ex h) ! t)"
  by (simp add: instance_graph_set_graph tokens_update_node)

lemma moves_tokens:
  assumes "moves w ex ex' evs"
  shows "tokens_count (nodes (instance_graph ex' h) ! t) + word_of_nat (decs evs h t)
           = tokens_count (nodes (instance_graph ex h) ! t)"
  using assms
proof (induction rule: moves.induct)
  case (m_decrement ex job out rest i)
  show ?case
  proof (cases "fst job = h \<and> fst (hd rest) = t")
    case True
    with m_decrement.hyps(4,5) show ?thesis
      by (simp add: instance_graph_set_graph nth_update_node)
  next
    case False
    with m_decrement.hyps(4,5) show ?thesis
      by (auto simp: instance_graph_set_graph nth_update_node)
  qed
qed (simp_all add: tokens_set_graph)

lemma count_invD:
  assumes "count_inv ex tr"
  shows "decs tr h t + owed ex h t \<le> supplied ex (fires tr) h t"
    and "h < length (handlers ex) \<Longrightarrow> t < length (nodes (instance_graph ex h)) \<Longrightarrow>
         tokens_count (nodes (instance_graph ex h) ! t) + word_of_nat (decs tr h t)
           = word_of_nat (input_size (nodes (instance_graph ex h) ! t))"
  using assms unfolding count_inv_def by blast+

lemma count_invI:
  assumes "\<And>h t. decs tr h t + owed ex h t \<le> supplied ex (fires tr) h t"
    and "\<And>h t. h < length (handlers ex) \<Longrightarrow> t < length (nodes (instance_graph ex h)) \<Longrightarrow>
         tokens_count (nodes (instance_graph ex h) ! t) + word_of_nat (decs tr h t)
           = word_of_nat (input_size (nodes (instance_graph ex h) ! t))"
  shows "count_inv ex tr"
  using assms unfolding count_inv_def by blast

lemma moves_count:
  assumes "moves w ex ex' evs" "count_inv ex tr"
  shows "count_inv ex' (tr @ evs)"
proof (rule count_invI)
  from moves_frame [OF assms(1)] have len: "length (handlers ex') = length (handlers ex)"
    by (simp add: same_wiring_length)
  note sb = moves_board [OF assms(1)]
  fix h t
  from count_invD(1) [OF assms(2), of h t] moves_owed [OF assms(1), of h t]
  show "decs (tr @ evs) h t + owed ex' h t \<le> supplied ex' (fires (tr @ evs)) h t"
    by (simp add: supplied_same [OF sb len])
  assume h: "h < length (handlers ex')" and t: "t < length (nodes (instance_graph ex' h))"
  from sb have b: "board (instance_graph ex' h) = board (instance_graph ex h)" by (simp add: same_board_def)
  from t board_nth(1) [OF b] have t': "t < length (nodes (instance_graph ex h))" by simp
  from h len have h': "h < length (handlers ex)" by simp
  have "tokens_count (nodes (instance_graph ex' h) ! t) + word_of_nat (decs (tr @ evs) h t)
      = (tokens_count (nodes (instance_graph ex' h) ! t) + word_of_nat (decs evs h t)) + word_of_nat (decs tr h t)"
    by simp
  also have "\<dots> = tokens_count (nodes (instance_graph ex h) ! t) + word_of_nat (decs tr h t)"
    by (simp only: moves_tokens [OF assms(1)])
  also have "\<dots> = word_of_nat (input_size (nodes (instance_graph ex h) ! t))"
    by (rule count_invD(2) [OF assms(2) h' t'])
  also have "\<dots> = word_of_nat (input_size (nodes (instance_graph ex' h) ! t))"
    by (simp add: board_nth(3) [OF b t'])
  finally show "tokens_count (nodes (instance_graph ex' h) ! t) + word_of_nat (decs (tr @ evs) h t)
      = word_of_nat (input_size (nodes (instance_graph ex' h) ! t))" .
qed

lemma fresh_counts:
  assumes "send_input_tokens (Graph_copy g0) input_args = Inr g" "t < length (nodes g)"
  shows "tokens_count (nodes g ! t) = word_of_nat (input_size (nodes g ! t))"
proof -
  let ?f = "\<lambda>nd. nd\<lparr>input_tokens :=
              map (\<lambda>a. Some (TokenSlot a)) input_args @ drop (length input_args) (input_tokens nd)\<rparr>"
  let ?k = "nat (input_node (Graph_copy g0))"
  from assms(1) have g: "g = update_node (Graph_copy g0) ?k ?f" and k: "?k < length (nodes (Graph_copy g0))"
    by (auto simp: send_input_tokens_def Let_def split: if_splits)
  from assms(2) g have t: "t < length (nodes g0)" by (simp add: Graph_copy_def)
  then have c: "nodes (Graph_copy g0) ! t = Node_copy (nodes g0 ! t)" by (simp add: Graph_copy_def)
  have "board g = board (Graph_copy g0)" unfolding g by (rule board_update_node) simp_all
  from board_nth(3) [OF this, of t] t
  have i: "input_size (nodes g ! t) = input_size (nodes (Graph_copy g0) ! t)" by (simp add: Graph_copy_def)
  have "tokens_count (nodes g ! t) = tokens_count (nodes (Graph_copy g0) ! t)"
    unfolding g by (rule tokens_update_node) simp
  with i show ?thesis by (simp add: c Node_copy_def)
qed

lemma supplied_none:
  assumes "\<not> h < length (handlers ex)"
  shows "supplied ex js h t = 0"
proof -
  from assms have "routes_of ex h k = []" for k by (simp add: routes_of_def)
  then have "(if fst j = h then cnt t (routes_of ex h (snd j)) else 0) = 0" for j :: Job
    by (simp add: cnt_def)
  then show ?thesis by (simp add: supplied_def)
qed

lemma run_count:
  fixes ex :: "'v Executor"
  assumes "Executor_run ex m input_args mem_flags = Some (r, m1, ex', evs)" "count_inv ex tr"
  shows "count_inv ex' (tr @ evs)"
proof -
  from run_cases [OF assms(1)] show ?thesis
  proof (elim disjE exE conjE)
    assume "ex' = ex" "evs = []"
    with assms(2) show ?thesis by simp
  next
    fix g :: "'v graph"
    let ?n = "length (handlers ex)"
    assume s: "send_input_tokens (Graph_copy (graph m1)) input_args = Inr g"
      and ex': "ex' = ex\<lparr> handlers := handlers ex @
                          [\<lparr> promise = None, h_graph = g, deleted = False, flag_memory = mem_flags \<rparr>],
                        job_queue := job_queue ex @ [(?n, nat (input_node g))],
                        graph_pool := graph_pool ex @ [?n] \<rparr>"
      and evs: "evs = [Enqueued (?n, nat (input_node g))]"
    have len: "length (handlers ex') = Suc ?n" by (simp add: ex')
    have oldg: "instance_graph ex' h = instance_graph ex h" if "h < ?n" for h
      using that by (simp add: instance_graph_def ex' nth_append)
    have newg: "instance_graph ex' ?n = g" by (simp add: instance_graph_def ex')
    have ow: "owed ex' h t = owed ex h t" for h t by (simp add: owed_def ex')
    have zero: "decs tr ?n t = 0 \<and> owed ex ?n t = 0" for t
      using count_invD(1) [OF assms(2), of ?n t] supplied_none [of ?n ex "fires tr" t] by simp
    show ?thesis
    proof (rule count_invI)
      fix h t
      show "decs (tr @ evs) h t + owed ex' h t \<le> supplied ex' (fires (tr @ evs)) h t"
      proof (cases "h = ?n")
        case True
        with zero [of t] show ?thesis by (simp add: evs ow)
      next
        case False
        have "routes_of ex' h k = routes_of ex h k" for k
        proof (cases "h < ?n")
          case True
          with oldg [OF True] len show ?thesis by (simp add: routes_of_def)
        next
          case hn: False
          with False len show ?thesis by (simp add: routes_of_def)
        qed
        then have "supplied ex' js h t = supplied ex js h t" for js
          by (simp add: supplied_def cong: if_cong)
        with count_invD(1) [OF assms(2), of h t] show ?thesis by (simp add: evs ow)
      qed
      assume h: "h < length (handlers ex')" and t: "t < length (nodes (instance_graph ex' h))"
      show "tokens_count (nodes (instance_graph ex' h) ! t) + word_of_nat (decs (tr @ evs) h t)
              = word_of_nat (input_size (nodes (instance_graph ex' h) ! t))"
      proof (cases "h = ?n")
        case True
        with t newg have "t < length (nodes g)" by simp
        from fresh_counts [OF s this] zero [of t] True newg show ?thesis by (simp add: evs)
      next
        case False
        with h len have h': "h < ?n" by simp
        from count_invD(2) [OF assms(2) h'] t oldg [OF h'] show ?thesis by (simp add: evs)
      qed
    qed
  qed
qed

lemma stop_count:
  assumes "count_inv ex tr"
  shows "count_inv (ex\<lparr>stop := True\<rparr>) tr"
proof -
  have g: "instance_graph (ex\<lparr>stop := True\<rparr>) h = instance_graph ex h" for h by (simp add: instance_graph_def)
  have "supplied (ex\<lparr>stop := True\<rparr>) js h t = supplied ex js h t" for js h t
    by (simp add: supplied_def routes_of_def g cong: if_cong)
  with assms g show ?thesis by (simp add: count_inv_def)
qed

lemma step_count:
  assumes "step a ex = Some (ex', evs)" "count_inv ex tr"
  shows "count_inv ex' (tr @ evs)"
proof (cases a)
  case (Work w)
  with assms(1) have "worker_step w ex = (ex', evs)" by (simp add: step_def)
  from moves_count [OF worker_step_moves [OF this] assms(2)] show ?thesis .
next
  case (Submit m input_args mem_flags)
  with assms(1) obtain r m1 where r: "Executor_run ex m input_args mem_flags = Some (r, m1, ex', evs)"
    by (auto simp: step_def split: option.splits)
  from run_count [OF r assms(2)] show ?thesis .
next
  case Shutdown
  with assms(1) have "ex' = ex\<lparr>stop := True\<rparr>" "evs = []" by (simp_all add: step_def)
  with stop_count [OF assms(2)] show ?thesis by simp
qed

lemma execute_count:
  "execute sched ex = Some (ex', evs) \<Longrightarrow> count_inv ex tr \<Longrightarrow> count_inv ex' (tr @ evs)"
proof (induction sched arbitrary: ex tr evs)
  case Nil
  then show ?case by simp
next
  case (Cons a as)
  from Cons.prems(1) obtain ex1 evs1 evs2 where s: "step a ex = Some (ex1, evs1)"
    and e: "execute as ex1 = Some (ex', evs2)" and evs: "evs = evs1 @ evs2"
    by (auto split: option.splits prod.splits)
  from step_count [OF s Cons.prems(2)] have "count_inv ex1 (tr @ evs1)" .
  from Cons.IH [OF e this] evs show ?case by simp
qed

lemma sum_list_replicate_zero: "sum_list (replicate n (0::nat)) = 0"
  by (induction n) simp_all

lemma count_inv_initial: "count_inv (Executor n) []"
  by (simp add: count_inv_def Executor_def owed_def supplied_def sum_list_replicate_zero)

lemma supplied_filter:
  "supplied ex js h t = sum_list (map (\<lambda>k. cnt t (routes_of ex h k)) (map snd (filter (\<lambda>j. fst j = h) js)))"
  by (induction js) (simp_all add: supplied_def)

lemma incoming_sum:
  assumes "h < length (handlers ex)"
  shows "incoming (instance_graph ex h) t
           = sum (\<lambda>k. cnt t (routes_of ex h k)) {0 ..< length (nodes (instance_graph ex h))}"
proof -
  let ?g = "instance_graph ex h"
  have "incoming ?g t = sum ((!) (map (\<lambda>nd. cnt t (output_map nd)) (nodes ?g))) {0 ..< length (nodes ?g)}"
    using sum_list_sum_nth [of "map (\<lambda>nd. cnt t (output_map nd)) (nodes ?g)"] by (simp add: incoming_def)
  also have "\<dots> = sum (\<lambda>k. cnt t (routes_of ex h k)) {0 ..< length (nodes ?g)}"
    by (rule sum.cong) (simp_all add: routes_of_def assms)
  finally show ?thesis .
qed

lemma supplied_le_incoming:
  assumes "distinct js" "h < length (handlers ex)"
  shows "supplied ex js h t \<le> incoming (instance_graph ex h) t"
proof -
  let ?c = "\<lambda>k. cnt t (routes_of ex h k)"
  let ?ks = "map snd (filter (\<lambda>j. fst j = h) js)"
  let ?N = "{0 ..< length (nodes (instance_graph ex h))}"
  have "inj_on snd (set (filter (\<lambda>j. fst j = h) js))"
    by (auto simp: inj_on_def prod_eq_iff)
  with assms(1) have d: "distinct ?ks" by (simp add: distinct_map)
  have z: "?c k = 0" if "k \<notin> ?N" for k
    using that by (simp add: routes_of_def cnt_def)
  have "supplied ex js h t = sum ?c (set ?ks)"
    unfolding supplied_filter by (rule sum_list_distinct_conv_sum_set [OF d])
  also have "\<dots> \<le> sum ?c (set ?ks \<union> ?N)"
    by (rule sum_mono2) auto
  also have "\<dots> = sum ?c ?N"
    by (rule sum.mono_neutral_right) (use z in auto)
  also have "\<dots> = incoming (instance_graph ex h) t"
    by (rule incoming_sum [OF assms(2), symmetric])
  finally show ?thesis .
qed

lemma never_ready:
  assumes "exec_inv ex tr" "count_inv ex tr"
    and h: "h < length (handlers ex)" and t: "t < length (nodes (instance_graph ex h))"
    and less: "incoming (instance_graph ex h) t < input_size (nodes (instance_graph ex h) ! t)"
    and small: "input_size (nodes (instance_graph ex h) ! t) < 2 ^ 32"
  shows "tokens_count (nodes (instance_graph ex h) ! t) \<noteq> 0"
proof
  let ?d = "decs tr h t" and ?i = "input_size (nodes (instance_graph ex h) ! t)"
  assume z: "tokens_count (nodes (instance_graph ex h) ! t) = 0"
  from count_invD(1) [OF assms(2), of h t] have "?d \<le> supplied ex (fires tr) h t" by simp
  also from supplied_le_incoming [OF exec_inv_distinct(3) [OF assms(1)] h]
  have "\<dots> \<le> incoming (instance_graph ex h) t" .
  finally have d: "?d < ?i" using less by simp
  from count_invD(2) [OF assms(2) h t] z have "(word_of_nat ?d :: 32 word) = word_of_nat ?i" by simp
  then have "unat (word_of_nat ?d :: 32 word) = unat (word_of_nat ?i :: 32 word)" by simp
  with d small show False by (simp add: unat_of_nat)
qed

lemma incoming_board: "incoming g t = sum_list (map (\<lambda>b. cnt t (fst b)) (board g))"
  by (simp add: incoming_def board_def comp_def)

lemma chain_only_never_ready:
  assumes "exec_inv ex tr" "count_inv ex tr" "chain_only ex" "h < length (handlers ex)"
  shows "tokens_count (nodes (instance_graph ex h) ! 1) \<noteq> 0"
proof -
  from assms(3,4) have b: "board (instance_graph ex h) = chain_board" by (simp add: chain_only_def)
  then have "map (\<lambda>nd. (output_map nd, input_size nd)) (nodes (instance_graph ex h)) = chain_board"
    by (simp add: board_def)
  from arg_cong [OF this, of length] arg_cong [OF this, of "\<lambda>xs. snd (xs ! 1)"]
  have l: "length (nodes (instance_graph ex h)) = 3" and i: "input_size (nodes (instance_graph ex h) ! 1) = 2"
    by (simp_all add: chain_board_def)
  have "incoming (instance_graph ex h) 1 = 1"
    by (simp add: incoming_board b) (simp add: chain_board_def cnt_def)
  with never_ready [OF assms(1,2,4), of 1] l i show ?thesis by simp
qed

lemma board_Graph_copy: "board (Graph_copy g) = board g"
  by (simp add: board_def Graph_copy_def Node_copy_def comp_def)

lemma board_send_input_tokens:
  "send_input_tokens g0 input_args = Inr g \<Longrightarrow> board g = board g0"
  by (auto simp: send_input_tokens_def Let_def board_update_node split: if_splits)

lemma chain_board_eq: "board (graph chain_marked) = chain_board"
  by (simp add: chain_marked_eq board_def chain_board_def Node_of_type_def)

lemma moves_chain_only:
  assumes "moves w ex ex' evs" "chain_only ex"
  shows "chain_only ex'"
proof -
  from moves_frame [OF assms(1)] have len: "length (handlers ex') = length (handlers ex)"
    by (simp add: same_wiring_length)
  from moves_board [OF assms(1)] assms(2) len show ?thesis
    by (simp add: chain_only_def same_board_def)
qed

lemma run_chain_only:
  fixes ex :: "nat Executor"
  assumes "Executor_run ex m input_args mem_flags = Some (r, m1, ex', evs)" "chain_only ex"
    "m = chain_marked \<or> m = chain_validated"
  shows "chain_only ex'"
proof -
  from run_cases [OF assms(1)] show ?thesis
  proof (elim disjE exE conjE)
    assume "ex' = ex" "evs = []"
    with assms(2) show ?thesis by simp
  next
    fix g :: "nat graph"
    let ?n = "length (handlers ex)"
    assume v: "Mdf_validate m = Some (None, m1)"
      and s: "send_input_tokens (Graph_copy (graph m1)) input_args = Inr g"
      and ex': "ex' = ex\<lparr> handlers := handlers ex @
                          [\<lparr> promise = None, h_graph = g, deleted = False, flag_memory = mem_flags \<rparr>],
                        job_queue := job_queue ex @ [(?n, nat (input_node g))],
                        graph_pool := graph_pool ex @ [?n] \<rparr>"
    from Mdf_validate_graph [OF v] have "board (graph m1) = board (graph m)" by (simp add: board_def)
    also have "\<dots> = chain_board"
    proof -
      have "board (graph chain_validated) = board (graph chain_marked)"
        by (simp add: chain_validated_eq board_def)
      with assms(3) chain_board_eq show ?thesis by auto
    qed
    finally have "board g = chain_board"
      using board_send_input_tokens [OF s] by (simp add: board_Graph_copy)
    with assms(2) show ?thesis
      by (auto simp: chain_only_def ex' instance_graph_def nth_append)
  qed
qed

lemma execute_chain_only:
  fixes ex :: "nat Executor"
  shows "execute sched ex = Some (ex', evs) \<Longrightarrow> chain_only ex \<Longrightarrow>
   set (submitted sched) \<subseteq> {chain_marked, chain_validated} \<Longrightarrow> chain_only ex'"
proof (induction sched arbitrary: ex evs)
  case Nil
  then show ?case by simp
next
  case (Cons a as)
  from Cons.prems(1) obtain ex1 evs1 evs2 where s: "step a ex = Some (ex1, evs1)"
    and e: "execute as ex1 = Some (ex', evs2)"
    by (auto split: option.splits prod.splits)
  from Cons.prems(3) submitted_Cons [of a as]
  have sa: "set (submitted [a]) \<subseteq> {chain_marked, chain_validated}"
    and sas: "set (submitted as) \<subseteq> {chain_marked, chain_validated}" by auto
  have "chain_only ex1"
  proof (cases a)
    case (Work w)
    with s have "worker_step w ex = (ex1, evs1)" by (simp add: step_def)
    from moves_chain_only [OF worker_step_moves [OF this] Cons.prems(2)] show ?thesis .
  next
    case (Submit m input_args mem_flags)
    with s obtain r m1 where r: "Executor_run ex m input_args mem_flags = Some (r, m1, ex1, evs1)"
      by (auto simp: step_def split: option.splits)
    from sa Submit have "m = chain_marked \<or> m = chain_validated" by (simp add: submitted_def)
    from run_chain_only [OF r Cons.prems(2) this] show ?thesis .
  next
    case Shutdown
    with s have "ex1 = ex\<lparr>stop := True\<rparr>" by (simp add: step_def)
    with Cons.prems(2) show ?thesis by (simp add: chain_only_def instance_graph_def)
  qed
  from Cons.IH [OF e this sas] show ?case .
qed

lemma template_wf_chain: "template_wf chain_marked" "template_wf chain_validated"
proof -
  show w: "template_wf chain_marked" by (simp add: template_wf_def chain_marked_eq)
  have "Mdf_validate chain_marked = Some (None, chain_validated)"
    by (simp add: chain_validate chain_validated_eq)
  from validate_sealed [OF w this] show "template_wf chain_validated" by (simp add: template_wf_def)
qed

lemma chain_runs_never_ready:
  fixes ex :: "nat Executor"
  assumes "execute sched (Executor n) = Some (ex, tr)"
    "set (submitted sched) \<subseteq> {chain_marked, chain_validated}" "h < length (handlers ex)"
  shows "tokens_count (nodes (instance_graph ex h) ! 1) \<noteq> 0"
proof -
  from assms(2) template_wf_chain have "\<forall>m \<in> set (submitted sched). template_wf m" by auto
  from execute_inv [OF assms(1) exec_inv_initial this] have i: "exec_inv ex tr" by simp
  from execute_count [OF assms(1) count_inv_initial] have c: "count_inv ex tr" by simp
  have "chain_only (Executor n)" by (simp add: chain_only_def Executor_def)
  from execute_chain_only [OF assms(1) this assms(2)] have "chain_only ex" .
  from chain_only_never_ready [OF i c this assms(3)] show ?thesis .
qed
section \<open>Three executions\<close>





lemma chain_execute:
  "\<exists>ex. execute chain_schedule (Executor 1)
          = Some (ex, [Enqueued (0, 0), Fired (0, 0), Decremented 0 1, Stored 0 1 0])
        \<and> length (handlers ex) = 1
        \<and> tokens_count (nodes (instance_graph ex 0) ! 1) = 1"
  apply (simp add: chain_schedule_def step_def chain_run [unfolded One_nat_def])
  apply (simp add: chain_submitted_def chain_instance_eq exec_defs instance_graph_def Node_of_type_def)
  done
section \<open>Claim C1\<close>



section \<open>Claim C10\<close>

text \<open>
  Claim C10 (\<open>validate\<close> does not check that a node other than the input node receives all
  its inputs: it accepts a template with such a node, one of whose slots no edge wires,
  although the counter of such a node never reaches zero in a run).  \<open>validate\<close> accepts the
  chain; its node 1 is not the input node and has two slots, the bit of slot 1 is clear in its
  dependent mask, and the output maps of the template name slot 0 of node 1 and slot 0 of
  node 2 only.  In every execution that submits this template (before or after its
  validation) any number of times, with any arguments, to an executor with any number of
  workers, under any schedule and whatever the memory of the flags holds, the counter of
  node 1 of every instance is different from zero (a worker whose next access is undefined
  makes no further step).
\<close>

theorem validate_accepts_unwired_slot:
  "Mdf_validate chain_marked = Some (None, chain_validated)
   \<and> nat (input_node (graph chain_validated)) \<noteq> 1
   \<and> input_size (nodes (graph chain_validated) ! 1) = 2
   \<and> bm_array (dependents (nodes (graph chain_validated) ! 1)) = [1]
   \<and> (bm_array (dependents (nodes (graph chain_validated) ! 1)) ! (1 div 32)) AND push_bit (1 mod 32) 1 = 0
   \<and> concat (map output_map (nodes (graph chain_validated))) = [(1, 0), (2, 0)]
   \<and> (\<forall>sched n ex tr h.
          execute sched (Executor n) = Some (ex, tr) \<longrightarrow>
          set (submitted sched) \<subseteq> {chain_marked, chain_validated} \<longrightarrow>
          h < length (handlers ex) \<longrightarrow>
          tokens_count (nodes (instance_graph ex h) ! 1) \<noteq> 0)"
proof (intro conjI allI impI)
  show "Mdf_validate chain_marked = Some (None, chain_validated)"
    by (simp add: chain_validate chain_validated_eq)
  show "nat (input_node (graph chain_validated)) \<noteq> 1"
    by (simp add: chain_validated_eq chain_marked_eq)
  show "input_size (nodes (graph chain_validated) ! 1) = 2"
    by (simp add: chain_validated_eq chain_marked_eq Node_of_type_def)
  show "bm_array (dependents (nodes (graph chain_validated) ! 1)) = [1]"
    by (simp add: chain_validated_eq chain_marked_eq Node_of_type_def)
  show "(bm_array (dependents (nodes (graph chain_validated) ! 1)) ! (1 div 32)) AND push_bit (1 mod 32) 1 = 0"
    by (simp add: chain_validated_eq chain_marked_eq Node_of_type_def)
  show "concat (map output_map (nodes (graph chain_validated))) = [(1, 0), (2, 0)]"
    by (simp add: chain_validated_eq chain_marked_eq Node_of_type_def)
next
  fix sched n and ex :: "nat Executor" and tr h
  assume "execute sched (Executor n) = Some (ex, tr)"
    "set (submitted sched) \<subseteq> {chain_marked, chain_validated}" "h < length (handlers ex)"
  then show "tokens_count (nodes (instance_graph ex h) ! 1) \<noteq> 0"
    by (rule chain_runs_never_ready)
qed

theorem validate_accepts_unwired_slot_witness:
  "\<exists>ex tr. execute chain_schedule (Executor 1) = Some (ex, tr)
     \<and> set (submitted chain_schedule) \<subseteq> {chain_marked, chain_validated}
     \<and> 0 < length (handlers ex)
     \<and> tokens_count (nodes (instance_graph ex 0) ! 1) = 1
     \<and> tokens_count (nodes (instance_graph ex 0) ! 1) \<noteq> 0"
proof -
  from chain_execute obtain ex where e: "execute chain_schedule (Executor 1)
          = Some (ex, [Enqueued (0, 0), Fired (0, 0), Decremented 0 1, Stored 0 1 0])"
    and l: "length (handlers ex) = 1" and t: "tokens_count (nodes (instance_graph ex 0) ! 1) = 1"
    by blast
  have s: "set (submitted chain_schedule) \<subseteq> {chain_marked, chain_validated}"
    by (simp add: submitted_def chain_schedule_def)
  from l have h: "0 < length (handlers ex)" by simp
  from validate_accepts_unwired_slot e s h have "tokens_count (nodes (instance_graph ex 0) ! 1) \<noteq> 0"
    by blast
  with e s h t show ?thesis by blast
qed

end
